theory Spec2Isabelle
  imports Main "HOL-Library.Word"
begin

unbundle bit_operations_syntax

section \<open>Data model (config.h and the sketch's globals)\<close>

type_synonym u8 = "8 word"
type_synonym u32 = "32 word"

text \<open>\<^verbatim>\<open>enum Mode { AUTO = 0, GO, QUIET, MODE_COUNT }\<close> and
  \<^verbatim>\<open>enum FsmState { FOLLOWER = 1, ELECT, LEADER }\<close>.\<close>

datatype Mode = AUTO | GO | QUIET

datatype FsmState = FOLLOWER | ELECT | LEADER

definition NUM_LEDS :: nat where
  "NUM_LEDS = 300"

definition MSGTYPE_RAW :: u8 where
  "MSGTYPE_RAW = 0"

definition MSGTYPE_TOKEN :: u8 where
  "MSGTYPE_TOKEN = 1"

definition LEADER_TIMEOUT :: u32 where
  "LEADER_TIMEOUT = 1500"

definition ELECTION_BASE_DELAY :: u32 where
  "ELECTION_BASE_DELAY = 200"

definition ELECTION_JITTER :: u32 where
  "ELECTION_JITTER = 50"

definition ELECTION_TIMEOUT :: u32 where
  "ELECTION_TIMEOUT = ELECTION_BASE_DELAY + ELECTION_JITTER + 50"

definition LEADER_HEARTBEAT_INTERVAL :: u32 where
  "LEADER_HEARTBEAT_INTERVAL = 100"

text \<open>
  The global variables of the sketch that the protocol reads or writes, as one record.
  \<open>leds\<close> is \<^verbatim>\<open>CRGB leds[NUM_LEDS]\<close> laid out as its bytes (three per pixel: r, g, b).
  \<open>sent\<close> lists the buffers handed to \<^verbatim>\<open>esp_now_send\<close>, oldest first, and \<open>shown\<close> the
  pixel buffers pushed by \<^verbatim>\<open>FastLED.show()\<close>. Serial output, the LCD and the LED driver's
  brightness register are devices outside this record.
\<close>

record node =
  currentMode :: Mode
  fsmState :: FsmState
  styleIdx :: u8
  freezeActive :: bool
  leds :: "u8 list"
  masterSeq :: u32
  chunkMask :: u32
  lastRecvMillis :: u32
  electionStart :: u32
  electionEnd :: u32
  myToken :: u32
  highestTokenSeen :: u32
  myDelay :: u32
  electionBroadcasted :: bool
  lastHeartbeat :: u32
  missedFrameCount :: u32
  sent :: "u8 list list"
  shown :: "u8 list list"

text \<open>
  What one call of \<^verbatim>\<open>handleNetworking\<close> reads from outside the record: the clock
  (\<^verbatim>\<open>millis()\<close>), the value returned by \<^verbatim>\<open>random(0, ELECTION_JITTER)\<close>, the pixel bytes the
  pattern and audio code (not part of the sources) leaves in \<^verbatim>\<open>leds\<close> when the leader
  renders, and the LED library's \<^verbatim>\<open>getBrightness()\<close> and \<^verbatim>\<open>scale8\<close>.
\<close>

record tick_in =
  t_now :: u32
  t_random :: u32
  t_frame :: "u8 list"
  t_bri :: u8
  t_scale8 :: "u8 \<Rightarrow> u8 \<Rightarrow> u8"

text \<open>
  Memory faults of the receive path. C++ leaves both undefined; the model stops with the
  fault instead of inventing a result.
\<close>

datatype fault = WriteOutsideLeds | ReadPastDatagram

section \<open>Wire helpers\<close>

text \<open>\<^verbatim>\<open>memcpy(&x, data + k, 4)\<close> and \<^verbatim>\<open>memcpy(buf + k, &x, 4)\<close> on the little-endian target.\<close>

definition load32 :: "u8 list \<Rightarrow> nat \<Rightarrow> u32" where
  "load32 d k =
     ucast (d ! k) OR push_bit 8 (ucast (d ! (k + 1)))
       OR push_bit 16 (ucast (d ! (k + 2))) OR push_bit 24 (ucast (d ! (k + 3)))"

definition store32 :: "u32 \<Rightarrow> u8 list" where
  "store32 w = [ucast w, ucast (drop_bit 8 w), ucast (drop_bit 16 w), ucast (drop_bit 24 w)]"

text \<open>\<^verbatim>\<open>memcpy(leds + base, src, n)\<close> for a copy that stays inside the buffer.\<close>

definition write_leds :: "u8 list \<Rightarrow> nat \<Rightarrow> u8 list \<Rightarrow> u8 list" where
  "write_leds buf off src = take off buf @ src @ drop (off + length src) buf"

text \<open>The frame-complete value \<^verbatim>\<open>(1u << ((NUM_LEDS + 74) / 75)) - 1u\<close>.\<close>

definition fullMask :: u32 where
  "fullMask = push_bit ((NUM_LEDS + 74) div 75) 1 - 1"

text \<open>
  The two buffers the sketch puts on the air: the five bytes \<^verbatim>\<open>sendToken\<close> fills, and the
  buffer \<^verbatim>\<open>sendRaw\<close> fills for one chunk (sequence counter, sender token, chunk index,
  payload).
\<close>

definition tokenMsg :: "u32 \<Rightarrow> u8 list" where
  "tokenMsg tok = MSGTYPE_TOKEN # store32 tok"

definition chunkMsg :: "u32 \<Rightarrow> u32 \<Rightarrow> u8 \<Rightarrow> u8 list \<Rightarrow> u8 list" where
  "chunkMsg sq tok idx payload = MSGTYPE_RAW # store32 sq @ store32 tok @ [idx] @ payload"

section \<open>networking.cpp\<close>

definition sendToken :: "node \<Rightarrow> node" where
  "sendToken s = s\<lparr>sent := sent s @ [tokenMsg (myToken s)]\<rparr>"

text \<open>One iteration of the loop of \<^verbatim>\<open>sendRaw\<close>, for chunk \<open>c\<close>.\<close>

definition sendChunk :: "(u8 \<Rightarrow> u8 \<Rightarrow> u8) \<Rightarrow> u8 \<Rightarrow> nat \<Rightarrow> node \<Rightarrow> node" where
  "sendChunk sc bri c s =
     (let base = c * 75;
          cnt = min 75 (NUM_LEDS - base);
          payload = map (\<lambda>b. sc b bri) (take (cnt * 3) (drop (base * 3) (leds s)));
          buf = chunkMsg (masterSeq s) (myToken s) (of_nat c) payload
      in s\<lparr>sent := sent s @ [buf], masterSeq := masterSeq s + 1\<rparr>)"

definition sendRaw :: "(u8 \<Rightarrow> u8 \<Rightarrow> u8) \<Rightarrow> u8 \<Rightarrow> node \<Rightarrow> node" where
  "sendRaw sc bri s = fold (sendChunk sc bri) [0 ..< (NUM_LEDS + 74) div 75] s"

text \<open>
  The election delay of line 117, in \<^verbatim>\<open>uint32_t\<close> arithmetic as the compiler evaluates it:
  the product wraps modulo \<open>2 ^ 32\<close> before the division.
\<close>

definition electionDelay :: "u32 \<Rightarrow> u32 \<Rightarrow> u32" where
  "electionDelay tok rnd = ((0xFFFFFFFF - tok) * ELECTION_BASE_DELAY) div 0xFFFFFFFF + rnd"

text \<open>The three cases of the \<^verbatim>\<open>switch(fsmState)\<close> of \<^verbatim>\<open>handleNetworking\<close>.\<close>

definition caseFOLLOWER :: "tick_in \<Rightarrow> node \<Rightarrow> node" where
  "caseFOLLOWER i s =
     (let now = t_now i;
          s1 = (if chunkMask s = fullMask
                then s\<lparr>shown := shown s @ [leds s], chunkMask := 0\<rparr> else s);
          timeSinceLastMsg = now - lastRecvMillis s1
      in if LEADER_TIMEOUT < timeSinceLastMsg then
           (let s2 = s1\<lparr>missedFrameCount := missedFrameCount s1 + 1\<rparr>
            in if 3 \<le> missedFrameCount s2 then
                 s2\<lparr>fsmState := ELECT,
                    electionStart := now,
                    electionEnd := now + ELECTION_TIMEOUT,
                    highestTokenSeen := myToken s2,
                    myDelay := electionDelay (myToken s2) (t_random i),
                    electionBroadcasted := False,
                    missedFrameCount := 0\<rparr>
               else s2)
         else if timeSinceLastMsg < LEADER_TIMEOUT div 2 then s1\<lparr>missedFrameCount := 0\<rparr>
         else s1)"

definition caseELECT :: "tick_in \<Rightarrow> node \<Rightarrow> node" where
  "caseELECT i s =
     (let now = t_now i;
          s1 = (if \<not> electionBroadcasted s \<and> electionStart s + myDelay s \<le> now
                then (sendToken s)\<lparr>electionBroadcasted := True\<rparr> else s)
      in if electionEnd s1 \<le> now then
           (if myToken s1 < highestTokenSeen s1
            then s1\<lparr>fsmState := FOLLOWER, lastRecvMillis := now\<rparr>
            else s1\<lparr>fsmState := LEADER\<rparr>)
         else s1)"

definition caseLEADER :: "tick_in \<Rightarrow> node \<Rightarrow> node" where
  "caseLEADER i s =
     (let now = t_now i;
          s1 = (if LEADER_HEARTBEAT_INTERVAL \<le> now - lastHeartbeat s
                then (sendToken s)\<lparr>lastHeartbeat := now\<rparr> else s)
      in if myToken s1 < highestTokenSeen s1 then
           s1\<lparr>fsmState := FOLLOWER, lastRecvMillis := now, chunkMask := 0,
              missedFrameCount := 0\<rparr>
         else sendRaw (t_scale8 i) (t_bri i)
                (s1\<lparr>leds := t_frame i, shown := shown s1 @ [t_frame i]\<rparr>))"

definition handleNetworking :: "tick_in \<Rightarrow> node \<Rightarrow> node" where
  "handleNetworking i s =
     (if currentMode s \<noteq> AUTO then s
      else case fsmState s of
             FOLLOWER \<Rightarrow> caseFOLLOWER i s
           | ELECT \<Rightarrow> caseELECT i s
           | LEADER \<Rightarrow> caseLEADER i s)"

text \<open>
  \<^verbatim>\<open>onRecv\<close>, the callback registered with the radio stack. \<open>now\<close> is its own reading of
  \<^verbatim>\<open>millis()\<close>, \<open>data\<close> the datagram (\<^verbatim>\<open>len\<close> is its length). In the follower branch
  \<^verbatim>\<open>cnt = min(75, NUM_LEDS - base)\<close> is a signed \<^verbatim>\<open>int\<close>: when it is negative the
  \<^verbatim>\<open>memcpy\<close> length converts to a huge \<^verbatim>\<open>size_t\<close> and the copy leaves \<^verbatim>\<open>leds\<close>; when the
  datagram is shorter than \<^verbatim>\<open>10 + cnt * 3\<close> the copy reads past it.
\<close>

definition onRecv :: "u32 \<Rightarrow> u8 list \<Rightarrow> node \<Rightarrow> fault + node" where
  "onRecv now data s =
     (if 5 \<le> length data \<and> data ! 0 = MSGTYPE_TOKEN then
        (let incomingToken = load32 data 1;
             s1 = (if highestTokenSeen s < incomingToken
                   then s\<lparr>highestTokenSeen := incomingToken\<rparr> else s);
             s2 = (if fsmState s1 = FOLLOWER \<and> currentMode s1 = AUTO
                   then s1\<lparr>lastRecvMillis := now, missedFrameCount := 0\<rparr> else s1)
         in Inr s2)
      else if length data < 10 \<or> data ! 0 \<noteq> MSGTYPE_RAW then Inr s
      else
        (let incomingToken = load32 data 5
         in if fsmState s = LEADER \<and> myToken s < incomingToken then
              Inr (s\<lparr>fsmState := FOLLOWER, lastRecvMillis := now, chunkMask := 0,
                     missedFrameCount := 0\<rparr>)
            else if fsmState s = FOLLOWER \<and> currentMode s = AUTO then
              (let idx = data ! 9;
                   base = uint idx * 75;
                   cnt = min 75 (int NUM_LEDS - base)
               in if cnt < 0 then Inl WriteOutsideLeds
                  else if int (length data) < 10 + cnt * 3 then Inl ReadPastDatagram
                  else Inr (s\<lparr>leds := write_leds (leds s) (nat (base * 3))
                                        (take (nat (cnt * 3)) (drop 10 data)),
                              chunkMask := chunkMask s OR push_bit (unat idx) 1,
                              lastRecvMillis := now,
                              missedFrameCount := 0\<rparr>))
            else Inr s))"

section \<open>ui.cpp\<close>

text \<open>
  \<^verbatim>\<open>handleButtons\<close>: \<open>btnA\<close> and \<open>btnB\<close> are \<^verbatim>\<open>M5.BtnA.wasClicked()\<close> and
  \<^verbatim>\<open>M5.BtnB.wasClicked()\<close>.
\<close>

definition handleButtons :: "u32 \<Rightarrow> bool \<Rightarrow> bool \<Rightarrow> node \<Rightarrow> node" where
  "handleButtons now btnA btnB s =
     (let s1 = (if btnA then
                  (if currentMode s = AUTO then s\<lparr>currentMode := GO\<rparr>
                   else if currentMode s = GO then s\<lparr>currentMode := QUIET\<rparr>
                   else s\<lparr>currentMode := AUTO, fsmState := FOLLOWER, lastRecvMillis := now\<rparr>)
                  \<lparr>freezeActive := False\<rparr>
                else s)
      in if btnB then
           (let canUseButton =
                  (if currentMode s1 = AUTO \<and> fsmState s1 = LEADER then True
                   else if currentMode s1 = GO \<or> currentMode s1 = QUIET then True
                   else False)
            in if canUseButton then
                 (if \<not> freezeActive s1 then s1\<lparr>freezeActive := True\<rparr>
                  else s1\<lparr>styleIdx := of_nat ((unat (styleIdx s1) + 1) mod 22)\<rparr>)
               else s1)
         else s1)"

section \<open>Runs of a node\<close>

text \<open>
  A node's life is a sequence of deliveries to \<^verbatim>\<open>onRecv\<close>, calls of \<^verbatim>\<open>handleNetworking\<close>
  and calls of \<^verbatim>\<open>handleButtons\<close>; a fault ends it.
\<close>

datatype event = Recv u32 "u8 list" | Tick tick_in | Buttons u32 bool bool

fun step :: "event \<Rightarrow> node \<Rightarrow> fault + node" where
  "step (Recv now data) s = onRecv now data s"
| "step (Tick i) s = Inr (handleNetworking i s)"
| "step (Buttons now btnA btnB) s = Inr (handleButtons now btnA btnB s)"

fun run :: "event list \<Rightarrow> node \<Rightarrow> fault + node" where
  "run [] s = Inr s"
| "run (e # es) s = (case step e s of Inl f \<Rightarrow> Inl f | Inr s' \<Rightarrow> run es s')"

section \<open>The main loop\<close>

text \<open>
  One iteration of \<^verbatim>\<open>loop()\<close>: \<^verbatim>\<open>handleButtons()\<close>, then \<^verbatim>\<open>handleNetworking()\<close> when the mode
  is AUTO, and otherwise the local pattern rendered into \<^verbatim>\<open>leds\<close> and shown. \<open>l_now\<close> is the
  clock as \<^verbatim>\<open>handleButtons\<close> reads it, \<open>l_tick\<close> what \<^verbatim>\<open>handleNetworking\<close> reads right after
  (its \<open>t_frame\<close> also stands for the pattern rendered in the other modes).
  \<^verbatim>\<open>handleOTA\<close>, \<^verbatim>\<open>drawUI\<close> and \<^verbatim>\<open>updateBPM\<close> write none of the protocol variables.
  Each call runs to completion: datagrams are delivered between iterations.
\<close>

record loop_in =
  l_now :: u32
  l_btnA :: bool
  l_btnB :: bool
  l_tick :: tick_in

definition loop :: "loop_in \<Rightarrow> node \<Rightarrow> node" where
  "loop li s =
     (let s1 = handleButtons (l_now li) (l_btnA li) (l_btnB li) s
      in if currentMode s1 = AUTO then handleNetworking (l_tick li) s1
         else s1\<lparr>leds := t_frame (l_tick li), shown := shown s1 @ [t_frame (l_tick li)]\<rparr>)"

text \<open>
  What happens to a running device: the radio stack delivers a datagram to \<^verbatim>\<open>onRecv\<close>, or
  \<^verbatim>\<open>loop()\<close> runs once more.
\<close>

datatype action = Deliver u32 "u8 list" | Iterate loop_in

fun act :: "action \<Rightarrow> node \<Rightarrow> fault + node" where
  "act (Deliver now data) s = onRecv now data s"
| "act (Iterate li) s = Inr (loop li s)"

fun acts :: "action list \<Rightarrow> node \<Rightarrow> fault + node" where
  "acts [] s = Inr s"
| "acts (a # as) s = (case act a s of Inl f \<Rightarrow> Inl f | Inr s' \<Rightarrow> acts as s')"

text \<open>
  The statement of C6 in the spec's words. An iteration performs a liveness check when its
  tick finds the node a Follower in the participating mode; the check is over the threshold
  when \<open>now - lastRecvMillis > LEADER_TIMEOUT\<close> there. \<open>streak as s k\<close> is the number of
  consecutive liveness checks over the threshold at the end of the actions \<open>as\<close>, started
  in state \<open>s\<close> with \<open>k\<close> such checks behind it: a liveness check over the threshold adds
  one, a liveness check that is not starts again from 0, nothing else counts.
\<close>

definition livenessCheck :: "loop_in \<Rightarrow> node \<Rightarrow> bool" where
  "livenessCheck li s \<longleftrightarrow>
     currentMode (handleButtons (l_now li) (l_btnA li) (l_btnB li) s) = AUTO \<and>
     fsmState (handleButtons (l_now li) (l_btnA li) (l_btnB li) s) = FOLLOWER"

definition overThreshold :: "loop_in \<Rightarrow> node \<Rightarrow> bool" where
  "overThreshold li s \<longleftrightarrow>
     LEADER_TIMEOUT <
       t_now (l_tick li) - lastRecvMillis (handleButtons (l_now li) (l_btnA li) (l_btnB li) s)"

fun streakStep :: "action \<Rightarrow> node \<Rightarrow> nat \<Rightarrow> nat" where
  "streakStep (Deliver now data) s k = k"
| "streakStep (Iterate li) s k =
     (if livenessCheck li s then (if overThreshold li s then k + 1 else 0) else k)"

fun streak :: "action list \<Rightarrow> node \<Rightarrow> nat \<Rightarrow> nat" where
  "streak [] s k = k"
| "streak (a # as) s k =
     (case act a s of Inl f \<Rightarrow> k | Inr s' \<Rightarrow> streak as s' (streakStep a s k))"

text \<open>
  The clock of a running device. \<open>timely tp tc as\<close>: after an iteration whose tick read
  \<open>tp\<close> and a latest clock reading \<open>tc\<close>, the readings of the actions \<open>as\<close> never go
  backwards, and the tick of every iteration comes less than half the leader timeout after
  the tick before it (the cadence the counter's reset below \<^verbatim>\<open>LEADER_TIMEOUT / 2\<close> counts
  on). Readings are compared by their distance from \<open>tp\<close>, so the wrap of \<^verbatim>\<open>millis()\<close>
  does no harm.
\<close>

fun timely :: "u32 \<Rightarrow> u32 \<Rightarrow> action list \<Rightarrow> bool" where
  "timely tp tc [] = True"
| "timely tp tc (Deliver now data # as) = (tc - tp \<le> now - tp \<and> timely tp now as)"
| "timely tp tc (Iterate li # as) =
     (tc - tp \<le> l_now li - tp \<and> l_now li - tp \<le> t_now (l_tick li) - tp \<and>
      t_now (l_tick li) - tp < LEADER_TIMEOUT div 2 \<and>
      timely (t_now (l_tick li)) (t_now (l_tick li)) as)"

text \<open>
  How the code's counter is tied to the streak between two actions, for a Follower in the
  participating mode: either nothing has refreshed \<open>lastRecvMillis\<close> since the last tick
  (at \<open>tp\<close>), and then the counter is the streak, at most 2, and positive exactly when that
  tick was over the threshold; or \<open>lastRecvMillis\<close> was set at or after that tick and no
  later than the latest reading \<open>tc\<close>.
\<close>

definition linked :: "u32 \<Rightarrow> u32 \<Rightarrow> nat \<Rightarrow> node \<Rightarrow> bool" where
  "linked tp tc k s \<longleftrightarrow>
     (currentMode s = AUTO \<and> fsmState s = FOLLOWER \<longrightarrow>
        (missedFrameCount s = of_nat k \<and> k \<le> 2 \<and>
         (k = 0 \<longrightarrow> unat (tp - lastRecvMillis s) \<le> 1500) \<and>
         (0 < k \<longrightarrow> 1500 < unat (tp - lastRecvMillis s) \<and>
                   unat (tp - lastRecvMillis s) \<le> 1500 + k * 750))
        \<or> unat (lastRecvMillis s - tp) \<le> unat (tc - tp))"

section \<open>Start-up and fixtures\<close>

text \<open>
  The token \<^verbatim>\<open>initNetworking\<close> derives from the last three bytes of the MAC address, and
  the state \<^verbatim>\<open>setup()\<close> leaves: the initialisers of the globals, that token, and the two
  timers set from the clock.
\<close>

definition macToken :: "u8 \<Rightarrow> u8 \<Rightarrow> u8 \<Rightarrow> u32" where
  "macToken m3 m4 m5 = push_bit 16 (ucast m3) OR push_bit 8 (ucast m4) OR ucast m5"

definition boot :: "u32 \<Rightarrow> u32 \<Rightarrow> u32 \<Rightarrow> node" where
  "boot tok tRecv tBeat =
     \<lparr>currentMode = AUTO, fsmState = FOLLOWER, styleIdx = 0, freezeActive = False,
      leds = replicate (3 * NUM_LEDS) 0, masterSeq = 0, chunkMask = 0,
      lastRecvMillis = tRecv, electionStart = 0, electionEnd = 0, myToken = tok,
      highestTokenSeen = 0, myDelay = 0, electionBroadcasted = False,
      lastHeartbeat = tBeat, missedFrameCount = 0, sent = [], shown = []\<rparr>"

text \<open>A tick input for examples: clock and random draw given, nothing rendered.\<close>

definition tickAt :: "u32 \<Rightarrow> u32 \<Rightarrow> tick_in" where
  "tickAt now rnd = \<lparr>t_now = now, t_random = rnd, t_frame = [], t_bri = 255, t_scale8 = (\<lambda>b _. b)\<rparr>"

text \<open>
  Reachable states for examples, all of a node booted at time 0 that hears nothing.
  \<open>staleTwice tok\<close>: after the stale checks at 1501 and 1521 ms. \<open>electing tok\<close>: after
  the third stale check, at 1541 ms, which starts an election round ending at 1841 ms.
  \<open>leading tok\<close>: after the tick at 1841 ms that concludes the round.
\<close>

definition staleTwice :: "u32 \<Rightarrow> node" where
  "staleTwice tok =
     handleNetworking (tickAt 1521 7) (handleNetworking (tickAt 1501 7) (boot tok 0 0))"

definition electing :: "u32 \<Rightarrow> node" where
  "electing tok = handleNetworking (tickAt 1541 7) (staleTwice tok)"

definition leading :: "u32 \<Rightarrow> node" where
  "leading tok = handleNetworking (tickAt 1841 0) (electing tok)"

text \<open>Chunk \<open>k\<close> of an all-black frame, as a leader with token 9 sends it.\<close>

definition blackChunk :: "u8 \<Rightarrow> u8 list" where
  "blackChunk k = chunkMsg (ucast k) 9 k (replicate 225 0)"

text \<open>
  \<open>heardNine\<close>: a node with token 1 that hears a heartbeat of token 9 at 5 ms and then
  nothing more, after its stale checks at 1506 and 1526 ms.
\<close>

definition heardNine :: "fault + node" where
  "heardNine =
     run [Recv 5 (tokenMsg 9), Tick (tickAt 1506 7), Tick (tickAt 1526 7)] (boot 1 0 0)"

text \<open>
  Iterations for examples: the clock reads \<open>t\<close> in \<^verbatim>\<open>handleButtons\<close> and in the tick, button A
  is clicked or not. \<open>fourChecks\<close>: a node that hears nothing is checked every 700 ms; the
  checks at 2100 and 2800 ms are over the threshold. \<open>backInAuto\<close>: the same, then three
  clicks take the node through GO and QUIET back to AUTO at 3400 ms, and it is checked at
  4100 and 4800 ms.
\<close>

definition iterAt :: "u32 \<Rightarrow> bool \<Rightarrow> loop_in" where
  "iterAt t a = \<lparr>l_now = t, l_btnA = a, l_btnB = False, l_tick = tickAt t 7\<rparr>"

definition fourChecks :: "action list" where
  "fourChecks =
     [Iterate (iterAt 700 False), Iterate (iterAt 1400 False), Iterate (iterAt 2100 False),
      Iterate (iterAt 2800 False)]"

definition backInAuto :: "action list" where
  "backInAuto =
     fourChecks @
     [Iterate (iterAt 3000 True), Iterate (iterAt 3200 True), Iterate (iterAt 3400 True),
      Deliver 3500 [7], Iterate (iterAt 4100 False), Iterate (iterAt 4800 False)]"

section \<open>Vocabulary of the statements\<close>

text \<open>The tests of lines 190 and 206 of \<^verbatim>\<open>onRecv\<close>: which datagrams it treats as a
  Heartbeat/Token datagram and which as a Pixel-Chunk datagram.\<close>

definition isTokenMsg :: "u8 list \<Rightarrow> bool" where
  "isTokenMsg d \<longleftrightarrow> 5 \<le> length d \<and> d ! 0 = MSGTYPE_TOKEN"

definition isRawMsg :: "u8 list \<Rightarrow> bool" where
  "isRawMsg d \<longleftrightarrow> 10 \<le> length d \<and> d ! 0 = MSGTYPE_RAW"

text \<open>The chunk index \<^verbatim>\<open>data[9]\<close>, and the number of chunks (\<^verbatim>\<open>chunks\<close> in \<^verbatim>\<open>sendRaw\<close>).\<close>

definition chunkIndex :: "u8 list \<Rightarrow> nat" where
  "chunkIndex d = unat (d ! 9)"

definition chunkCount :: nat where
  "chunkCount = (NUM_LEDS + 74) div 75"

text \<open>
  A Pixel-Chunk datagram as \<^verbatim>\<open>sendRaw\<close> builds it: the index is one of the frame's chunks and
  the payload holds at least the \<^verbatim>\<open>cnt * 3\<close> bytes of that chunk.
\<close>

definition wellFormedChunk :: "u8 list \<Rightarrow> bool" where
  "wellFormedChunk d \<longleftrightarrow>
     d ! 0 = MSGTYPE_RAW \<and> chunkIndex d < chunkCount \<and>
     10 + 3 * min 75 (NUM_LEDS - chunkIndex d * 75) \<le> length d"

text \<open>Deliveries (receive time, datagram) as events.\<close>

definition deliveries :: "(u32 \<times> u8 list) list \<Rightarrow> event list" where
  "deliveries ds = map (\<lambda>(t, d). Recv t d) ds"

text \<open>
  An event of an election round in which no token above \<open>tok\<close> is observed and which
  does not conclude the round ending at \<open>endT\<close>: a datagram that is not a Heartbeat/Token
  datagram with a larger token, a tick before the round's end, or a call of
  \<^verbatim>\<open>handleButtons\<close> without a click on button A.
\<close>

fun quietEvent :: "u32 \<Rightarrow> u32 \<Rightarrow> event \<Rightarrow> bool" where
  "quietEvent tok endT (Recv now d) = (if isTokenMsg d then load32 d 1 \<le> tok else True)"
| "quietEvent tok endT (Tick i) = (t_now i < endT)"
| "quietEvent tok endT (Buttons now btnA btnB) = (\<not> btnA)"

section \<open>Basic facts\<close>

lemmas config_defs = NUM_LEDS_def MSGTYPE_RAW_def MSGTYPE_TOKEN_def LEADER_TIMEOUT_def
  ELECTION_BASE_DELAY_def ELECTION_JITTER_def ELECTION_TIMEOUT_def
  LEADER_HEARTBEAT_INTERVAL_def

lemma u32_small: "\<not> (3::u32) \<le> 1" "\<not> (3::u32) \<le> 2" "(3::u32) \<le> 3"
  by (simp_all add: word_le_nat_alt)

lemma fullMask_eq: "fullMask = 15"
  by (simp add: fullMask_def NUM_LEDS_def)

lemma chunkCount_eq: "chunkCount = 4"
  by (simp add: chunkCount_def NUM_LEDS_def)

lemma macToken_24bit: "macToken m3 m4 m5 < 2 ^ 24"
proof -
  have "macToken m3 m4 m5 = macToken m3 m4 m5 AND mask 24"
    by (simp add: macToken_def bit_eq_iff bit_simps) (auto dest: bit_imp_le_length)
  also have "\<dots> < 2 ^ 24"
    by (rule and_mask_less_size) (simp add: word_size)
  finally show ?thesis .
qed

lemma load32_store32: "load32 (pre @ store32 w @ post) (length pre) = w"
  apply (simp add: load32_def store32_def nth_append bit_eq_iff bit_simps)
  apply (intro allI impI)
  subgoal for n
    by (cases "n < 8"; cases "n < 16"; cases "n < 24"; auto)
  done

lemma tokenMsg_decodes: "isTokenMsg (tokenMsg tok)" "load32 (tokenMsg tok) 1 = tok"
proof -
  show "isTokenMsg (tokenMsg tok)"
    by (simp add: isTokenMsg_def tokenMsg_def store32_def)
  show "load32 (tokenMsg tok) 1 = tok"
    using load32_store32 [of "[MSGTYPE_TOKEN]" tok "[]"] by (simp add: tokenMsg_def)
qed

lemma chunkMsg_decodes:
  "isRawMsg (chunkMsg sq tok idx payload)"
  "\<not> isTokenMsg (chunkMsg sq tok idx payload)"
  "load32 (chunkMsg sq tok idx payload) 5 = tok"
  "chunkIndex (chunkMsg sq tok idx payload) = unat idx"
proof -
  show "isRawMsg (chunkMsg sq tok idx payload)"
    by (simp add: isRawMsg_def chunkMsg_def store32_def)
  show "\<not> isTokenMsg (chunkMsg sq tok idx payload)"
    by (simp add: isTokenMsg_def chunkMsg_def config_defs)
  have len: "length (MSGTYPE_RAW # store32 sq) = 5"
    by (simp add: store32_def)
  show "load32 (chunkMsg sq tok idx payload) 5 = tok"
    using load32_store32 [of "MSGTYPE_RAW # store32 sq" tok "idx # payload"]
    unfolding len by (simp add: chunkMsg_def)
  show "chunkIndex (chunkMsg sq tok idx payload) = unat idx"
    by (simp add: chunkIndex_def chunkMsg_def store32_def)
qed

lemma isRawMsg_not_token: "isRawMsg d \<Longrightarrow> \<not> isTokenMsg d"
  by (simp add: isRawMsg_def isTokenMsg_def config_defs)

text \<open>The product of line 117 is even, so it never equals \<open>0xFFFFFFFF\<close> and the quotient
  is 0 whatever the token.\<close>

lemma electionDelay_is_random: "electionDelay tok rnd = rnd"
proof -
  let ?p = "(0xFFFFFFFF - tok) * ELECTION_BASE_DELAY"
  have "?p \<noteq> (0xFFFFFFFF :: u32)"
  proof
    assume h: "?p = (0xFFFFFFFF :: u32)"
    have "even ?p"
      by (simp add: ELECTION_BASE_DELAY_def)
    with h show False by simp
  qed
  moreover have "?p \<le> (0xFFFFFFFF :: u32)"
    using unsigned_less [of ?p, where 'a = nat] by (simp add: word_le_nat_alt)
  ultimately have "?p < (0xFFFFFFFF :: u32)"
    by simp
  then show ?thesis
    by (simp add: electionDelay_def div_word_less)
qed

subsection \<open>sendRaw touches the outbox and the sequence counter only\<close>

lemma sendChunk_fields [simp]:
  "currentMode (sendChunk sc bri c s) = currentMode s"
  "fsmState (sendChunk sc bri c s) = fsmState s"
  "chunkMask (sendChunk sc bri c s) = chunkMask s"
  "lastRecvMillis (sendChunk sc bri c s) = lastRecvMillis s"
  "electionStart (sendChunk sc bri c s) = electionStart s"
  "electionEnd (sendChunk sc bri c s) = electionEnd s"
  "myToken (sendChunk sc bri c s) = myToken s"
  "highestTokenSeen (sendChunk sc bri c s) = highestTokenSeen s"
  "myDelay (sendChunk sc bri c s) = myDelay s"
  "electionBroadcasted (sendChunk sc bri c s) = electionBroadcasted s"
  "lastHeartbeat (sendChunk sc bri c s) = lastHeartbeat s"
  "missedFrameCount (sendChunk sc bri c s) = missedFrameCount s"
  "leds (sendChunk sc bri c s) = leds s"
  by (simp_all add: sendChunk_def Let_def)

lemma fold_sendChunk_fields:
  "currentMode (fold (sendChunk sc bri) cs s) = currentMode s \<and>
   fsmState (fold (sendChunk sc bri) cs s) = fsmState s \<and>
   chunkMask (fold (sendChunk sc bri) cs s) = chunkMask s \<and>
   lastRecvMillis (fold (sendChunk sc bri) cs s) = lastRecvMillis s \<and>
   electionStart (fold (sendChunk sc bri) cs s) = electionStart s \<and>
   electionEnd (fold (sendChunk sc bri) cs s) = electionEnd s \<and>
   myToken (fold (sendChunk sc bri) cs s) = myToken s \<and>
   highestTokenSeen (fold (sendChunk sc bri) cs s) = highestTokenSeen s \<and>
   myDelay (fold (sendChunk sc bri) cs s) = myDelay s \<and>
   electionBroadcasted (fold (sendChunk sc bri) cs s) = electionBroadcasted s \<and>
   lastHeartbeat (fold (sendChunk sc bri) cs s) = lastHeartbeat s \<and>
   missedFrameCount (fold (sendChunk sc bri) cs s) = missedFrameCount s \<and>
   leds (fold (sendChunk sc bri) cs s) = leds s"
  by (induction cs arbitrary: s) simp_all

lemma sendRaw_fields [simp]:
  "currentMode (sendRaw sc bri s) = currentMode s"
  "fsmState (sendRaw sc bri s) = fsmState s"
  "chunkMask (sendRaw sc bri s) = chunkMask s"
  "lastRecvMillis (sendRaw sc bri s) = lastRecvMillis s"
  "electionStart (sendRaw sc bri s) = electionStart s"
  "electionEnd (sendRaw sc bri s) = electionEnd s"
  "myToken (sendRaw sc bri s) = myToken s"
  "highestTokenSeen (sendRaw sc bri s) = highestTokenSeen s"
  "myDelay (sendRaw sc bri s) = myDelay s"
  "electionBroadcasted (sendRaw sc bri s) = electionBroadcasted s"
  "lastHeartbeat (sendRaw sc bri s) = lastHeartbeat s"
  "missedFrameCount (sendRaw sc bri s) = missedFrameCount s"
  "leds (sendRaw sc bri s) = leds s"
  by (simp_all add: sendRaw_def fold_sendChunk_fields)

subsection \<open>The follower case, field by field\<close>

lemma caseFOLLOWER_fsmState:
  "fsmState (caseFOLLOWER i s) =
     (if LEADER_TIMEOUT < t_now i - lastRecvMillis s \<and> 3 \<le> missedFrameCount s + 1
      then ELECT else fsmState s)"
  by (simp add: caseFOLLOWER_def Let_def)

lemma caseFOLLOWER_missed:
  "missedFrameCount (caseFOLLOWER i s) =
     (if LEADER_TIMEOUT < t_now i - lastRecvMillis s
      then (if 3 \<le> missedFrameCount s + 1 then 0 else missedFrameCount s + 1)
      else if t_now i - lastRecvMillis s < LEADER_TIMEOUT div 2 then 0
      else missedFrameCount s)"
  by (simp add: caseFOLLOWER_def Let_def)

lemma caseFOLLOWER_hts:
  "highestTokenSeen (caseFOLLOWER i s) =
     (if LEADER_TIMEOUT < t_now i - lastRecvMillis s \<and> 3 \<le> missedFrameCount s + 1
      then myToken s else highestTokenSeen s)"
  by (simp add: caseFOLLOWER_def Let_def)

lemma caseFOLLOWER_chunkMask:
  "chunkMask (caseFOLLOWER i s) = (if chunkMask s = fullMask then 0 else chunkMask s)"
  by (simp add: caseFOLLOWER_def Let_def)

lemma caseFOLLOWER_same [simp]:
  "currentMode (caseFOLLOWER i s) = currentMode s"
  "lastRecvMillis (caseFOLLOWER i s) = lastRecvMillis s"
  "myToken (caseFOLLOWER i s) = myToken s"
  by (simp_all add: caseFOLLOWER_def Let_def)

lemma caseELECT_same [simp]:
  "currentMode (caseELECT i s) = currentMode s"
  "myToken (caseELECT i s) = myToken s"
  "highestTokenSeen (caseELECT i s) = highestTokenSeen s"
  "electionEnd (caseELECT i s) = electionEnd s"
  "chunkMask (caseELECT i s) = chunkMask s"
  "missedFrameCount (caseELECT i s) = missedFrameCount s"
  by (simp_all add: caseELECT_def sendToken_def Let_def)

lemma caseELECT_fsmState:
  "fsmState s = ELECT \<Longrightarrow>
   fsmState (caseELECT i s) =
     (if electionEnd s \<le> t_now i
      then (if myToken s < highestTokenSeen s then FOLLOWER else LEADER) else ELECT)"
  by (simp add: caseELECT_def sendToken_def Let_def)

lemma caseLEADER_same [simp]:
  "currentMode (caseLEADER i s) = currentMode s"
  "myToken (caseLEADER i s) = myToken s"
  "highestTokenSeen (caseLEADER i s) = highestTokenSeen s"
  by (simp_all add: caseLEADER_def sendToken_def Let_def)

lemma handleNetworking_same [simp]:
  "currentMode (handleNetworking i s) = currentMode s"
  "myToken (handleNetworking i s) = myToken s"
  by (simp_all add: handleNetworking_def split: FsmState.split)

lemma handleNetworking_hts:
  "highestTokenSeen (handleNetworking i s) =
     (if currentMode s = AUTO \<and> fsmState s = FOLLOWER \<and>
         LEADER_TIMEOUT < t_now i - lastRecvMillis s \<and> 3 \<le> missedFrameCount s + 1
      then myToken s else highestTokenSeen s)"
  by (simp add: handleNetworking_def caseFOLLOWER_hts split: FsmState.split)

lemma handleButtons_hts [simp]:
  "highestTokenSeen (handleButtons now a b s) = highestTokenSeen s"
  by (simp add: handleButtons_def Let_def)

subsection \<open>The receive callback, case by case\<close>

lemma onRecv_token:
  assumes "isTokenMsg d"
  shows "onRecv now d s =
     Inr (if fsmState s = FOLLOWER \<and> currentMode s = AUTO
          then s\<lparr>highestTokenSeen := max (highestTokenSeen s) (load32 d 1),
                 lastRecvMillis := now, missedFrameCount := 0\<rparr>
          else s\<lparr>highestTokenSeen := max (highestTokenSeen s) (load32 d 1)\<rparr>)"
proof (cases "highestTokenSeen s < load32 d 1")
  case True
  then have "max (highestTokenSeen s) (load32 d 1) = load32 d 1" by simp
  with True assms show ?thesis
    by (simp add: onRecv_def isTokenMsg_def Let_def)
next
  case False
  then have "max (highestTokenSeen s) (load32 d 1) = highestTokenSeen s" by simp
  with False assms show ?thesis
    by (simp add: onRecv_def isTokenMsg_def Let_def)
qed

lemma onRecv_raw_LEADER_higher:
  "isRawMsg d \<Longrightarrow> fsmState s = LEADER \<Longrightarrow> myToken s < load32 d 5 \<Longrightarrow>
   onRecv now d s =
     Inr (s\<lparr>fsmState := FOLLOWER, lastRecvMillis := now, chunkMask := 0,
            missedFrameCount := 0\<rparr>)"
  by (simp add: onRecv_def isRawMsg_def Let_def config_defs)

lemma onRecv_raw_ELECT:
  "isRawMsg d \<Longrightarrow> fsmState s = ELECT \<Longrightarrow> onRecv now d s = Inr s"
  by (simp add: onRecv_def isRawMsg_def Let_def config_defs)

lemma onRecv_other:
  "\<not> isTokenMsg d \<Longrightarrow> \<not> isRawMsg d \<Longrightarrow> onRecv now d s = Inr s"
  by (auto simp: onRecv_def isRawMsg_def isTokenMsg_def)


lemma wellFormedChunk_index: "wellFormedChunk d \<Longrightarrow> chunkIndex d < 4"
  by (simp add: wellFormedChunk_def chunkCount_eq)

lemma wellFormedChunk_length: "wellFormedChunk d \<Longrightarrow> 235 \<le> length d"
proof -
  assume w: "wellFormedChunk d"
  then have i: "chunkIndex d < 4" by (rule wellFormedChunk_index)
  then have "chunkIndex d * 75 \<le> 225" by simp
  then have "min 75 (NUM_LEDS - chunkIndex d * 75) = 75"
    unfolding NUM_LEDS_def by arith
  with w show ?thesis by (simp add: wellFormedChunk_def)
qed

lemma wellFormedChunk_cnt: "wellFormedChunk d \<Longrightarrow> min 75 (int NUM_LEDS - uint (d ! 9) * 75) = 75"
proof -
  assume w: "wellFormedChunk d"
  then have i: "chunkIndex d < 4" by (rule wellFormedChunk_index)
  then have "unat (d ! 9) < 4"
    by (simp add: chunkIndex_def)
  then have "int (unat (d ! 9)) < 4"
    by linarith
  then have "uint (d ! 9) < 4"
    by simp
  then show ?thesis
    unfolding NUM_LEDS_def by simp
qed

lemma onRecv_chunk_FOLLOWER:
  assumes "wellFormedChunk d" "fsmState s = FOLLOWER" "currentMode s = AUTO"
  shows "\<exists>bytes. onRecv now d s =
     Inr (s\<lparr>leds := bytes, chunkMask := chunkMask s OR push_bit (chunkIndex d) 1,
            lastRecvMillis := now, missedFrameCount := 0\<rparr>)"
proof -
  from assms(1) have raw: "d ! 0 = MSGTYPE_RAW"
    by (simp add: wellFormedChunk_def)
  have tok: "\<not> (5 \<le> length d \<and> d ! 0 = MSGTYPE_TOKEN)"
    using raw by (simp add: config_defs)
  have len: "\<not> length d < 10" "\<not> int (length d) < 235"
    using wellFormedChunk_length [OF assms(1)] by simp_all
  show ?thesis
    unfolding onRecv_def Let_def wellFormedChunk_cnt [OF assms(1)]
    using raw tok len assms(2,3) by (simp add: chunkIndex_def) blast
qed

lemma onRecv_hts_mono:
  "onRecv now d s = Inr s' \<Longrightarrow> highestTokenSeen s \<le> highestTokenSeen s'"
  by (auto simp: onRecv_def Let_def split: if_splits)

lemma onRecv_nontoken_hts:
  "\<not> isTokenMsg d \<Longrightarrow> onRecv now d s = Inr s' \<Longrightarrow> highestTokenSeen s' = highestTokenSeen s"
  by (auto simp: onRecv_def isTokenMsg_def Let_def split: if_splits)

lemma onRecv_frame:
  assumes "onRecv now d s = Inr s'"
  shows "currentMode s' = currentMode s \<and> myToken s' = myToken s \<and>
      electionStart s' = electionStart s \<and> electionEnd s' = electionEnd s \<and>
      myDelay s' = myDelay s \<and> electionBroadcasted s' = electionBroadcasted s \<and>
      lastHeartbeat s' = lastHeartbeat s \<and> masterSeq s' = masterSeq s \<and>
      sent s' = sent s \<and> shown s' = shown s"
proof (cases "isTokenMsg d")
  case True
  from assms show ?thesis
    unfolding onRecv_token [OF True] by (auto split: if_splits)
next
  case False
  note nt = this
  show ?thesis
  proof (cases "isRawMsg d")
    case False
    from assms show ?thesis
      unfolding onRecv_other [OF nt False] by simp
  next
    case True
    then have raw: "\<not> length d < 10" "d ! 0 = MSGTYPE_RAW"
      by (simp_all add: isRawMsg_def)
    have tok: "\<not> (5 \<le> length d \<and> d ! 0 = MSGTYPE_TOKEN)"
      using nt by (simp add: isTokenMsg_def)
    from assms show ?thesis
      unfolding onRecv_def Let_def using raw tok
      by (simp split: if_splits) auto
  qed
qed

lemma handleButtons_noA:
  "fsmState (handleButtons now False b s) = fsmState s"
  "currentMode (handleButtons now False b s) = currentMode s"
  "highestTokenSeen (handleButtons now False b s) = highestTokenSeen s"
  "myToken (handleButtons now False b s) = myToken s"
  "electionEnd (handleButtons now False b s) = electionEnd s"
  by (simp_all add: handleButtons_def Let_def)

subsection \<open>A round in which no higher token is observed stays open and unbeaten\<close>

lemma quiet_step:
  assumes "fsmState s = ELECT" "currentMode s = AUTO" "highestTokenSeen s \<le> myToken s"
    and "quietEvent (myToken s) (electionEnd s) e"
  shows "\<exists>s'. step e s = Inr s' \<and> fsmState s' = ELECT \<and> currentMode s' = AUTO \<and>
           highestTokenSeen s' \<le> myToken s' \<and> myToken s' = myToken s \<and>
           electionEnd s' = electionEnd s"
proof (cases e)
  case (Recv now d)
  show ?thesis
  proof (cases "isTokenMsg d")
    case True
    with assms Recv show ?thesis by (simp add: onRecv_token)
  next
    case False
    show ?thesis
    proof (cases "isRawMsg d")
      case True
      with assms Recv show ?thesis by (simp add: onRecv_raw_ELECT)
    next
      case False
      with \<open>\<not> isTokenMsg d\<close> assms Recv show ?thesis by (simp add: onRecv_other)
    qed
  qed
next
  case (Tick i)
  with assms have "t_now i < electionEnd s" by simp
  then have "\<not> electionEnd s \<le> t_now i" by simp
  with assms Tick show ?thesis
    by (simp add: handleNetworking_def caseELECT_fsmState)
next
  case (Buttons now a b)
  with assms have "\<not> a" by simp
  with assms Buttons show ?thesis by (simp add: handleButtons_noA)
qed

lemma quiet_round:
  assumes "fsmState s = ELECT" "currentMode s = AUTO" "highestTokenSeen s \<le> myToken s"
    and "\<forall>e \<in> set es. quietEvent (myToken s) (electionEnd s) e"
  shows "\<exists>s'. run es s = Inr s' \<and> fsmState s' = ELECT \<and> currentMode s' = AUTO \<and>
           highestTokenSeen s' \<le> myToken s' \<and> myToken s' = myToken s \<and>
           electionEnd s' = electionEnd s"
  using assms
proof (induction es arbitrary: s)
  case Nil
  then show ?case by simp
next
  case (Cons e es)
  from Cons.prems obtain s1 where s1: "step e s = Inr s1" "fsmState s1 = ELECT"
    "currentMode s1 = AUTO" "highestTokenSeen s1 \<le> myToken s1" "myToken s1 = myToken s"
    "electionEnd s1 = electionEnd s"
    using quiet_step [of s e] by auto
  from Cons.prems s1 have "\<forall>e \<in> set es. quietEvent (myToken s1) (electionEnd s1) e"
    by simp
  from Cons.IH [OF s1(2,3,4) this] s1 show ?case by auto
qed

subsection \<open>Chunks delivered to a Follower\<close>

lemma chunk_bit:
  "k < 4 \<Longrightarrow> bit (w OR push_bit k (1::u32)) n \<longleftrightarrow> bit w n \<or> n = k"
  by (auto simp: bit_simps)

lemma fullMask_bits: "w = fullMask \<longleftrightarrow> (\<forall>n. bit w n \<longleftrightarrow> n < 4)"
proof -
  have m: "fullMask = (mask 4 :: u32)"
    by (simp add: fullMask_eq mask_eq_exp_minus_1)
  show ?thesis
  proof
    assume "w = fullMask"
    then show "\<forall>n. bit w n \<longleftrightarrow> n < 4"
      by (auto simp add: m bit_mask_iff)
  next
    assume "\<forall>n. bit w n \<longleftrightarrow> n < 4"
    then show "w = fullMask"
      unfolding m by (intro bit_word_eqI) (simp add: bit_mask_iff)
  qed
qed

lemma recv_chunks:
  assumes "fsmState s = FOLLOWER" "currentMode s = AUTO"
    and "\<forall>(t, d) \<in> set ds. wellFormedChunk d"
  shows "\<exists>s'. run (deliveries ds) s = Inr s' \<and> fsmState s' = FOLLOWER \<and>
           currentMode s' = AUTO \<and>
           (\<forall>n. bit (chunkMask s') n \<longleftrightarrow>
                  bit (chunkMask s) n \<or> n \<in> (chunkIndex \<circ> snd) ` set ds)"
  using assms
proof (induction ds arbitrary: s)
  case Nil
  then show ?case by (simp add: deliveries_def)
next
  case (Cons td ds)
  obtain t d where td: "td = (t, d)" by (cases td)
  with Cons.prems have wf: "wellFormedChunk d" by simp
  from onRecv_chunk_FOLLOWER [OF wf Cons.prems(1,2), of t]
  obtain s1 where s1: "onRecv t d s = Inr s1" "fsmState s1 = FOLLOWER" "currentMode s1 = AUTO"
    "chunkMask s1 = chunkMask s OR push_bit (chunkIndex d) 1"
    using Cons.prems(1,2) by auto
  from Cons.prems have "\<forall>(t, d) \<in> set ds. wellFormedChunk d" by simp
  from Cons.IH [OF s1(2,3) this] obtain s' where s': "run (deliveries ds) s1 = Inr s'"
    "fsmState s' = FOLLOWER" "currentMode s' = AUTO"
    "\<forall>n. bit (chunkMask s') n \<longleftrightarrow> bit (chunkMask s1) n \<or> n \<in> (chunkIndex \<circ> snd) ` set ds"
    by auto
  have run: "run (deliveries (td # ds)) s = Inr s'"
    using s1(1) s'(1) by (simp add: deliveries_def td)
  have idx: "chunkIndex d < 4" using wf by (rule wellFormedChunk_index)
  have one: "\<forall>n. bit (chunkMask s1) n \<longleftrightarrow> bit (chunkMask s) n \<or> n = chunkIndex d"
    unfolding s1(4) using chunk_bit [OF idx] by blast
  have "\<forall>n. bit (chunkMask s') n \<longleftrightarrow>
           bit (chunkMask s) n \<or> n \<in> (chunkIndex \<circ> snd) ` set (td # ds)"
    unfolding td using s'(4) one by auto
  with run s'(2,3) show ?case by blast
qed

lemma recv_chunks_complete:
  assumes "fsmState s = FOLLOWER" "currentMode s = AUTO" "chunkMask s = 0"
    and "\<forall>(t, d) \<in> set ds. wellFormedChunk d"
  shows "\<exists>s'. run (deliveries ds) s = Inr s' \<and>
           (chunkMask s' = fullMask \<longleftrightarrow> (chunkIndex \<circ> snd) ` set ds = {0 ..< chunkCount})"
proof -
  from recv_chunks [OF assms(1,2,4)] obtain s' where s': "run (deliveries ds) s = Inr s'"
    "\<forall>n. bit (chunkMask s') n \<longleftrightarrow> bit (chunkMask s) n \<or> n \<in> (chunkIndex \<circ> snd) ` set ds"
    by auto
  have sub: "(chunkIndex \<circ> snd) ` set ds \<subseteq> {0 ..< 4}"
    using assms(4) wellFormedChunk_index by fastforce
  have bits: "\<forall>n. bit (chunkMask s') n \<longleftrightarrow> n \<in> (chunkIndex \<circ> snd) ` set ds"
    using s'(2) by (simp add: assms(3))
  have "chunkMask s' = fullMask \<longleftrightarrow> (chunkIndex \<circ> snd) ` set ds = {0 ..< 4}"
    unfolding fullMask_bits using bits sub by auto
  with s'(1) show ?thesis by (simp add: chunkCount_eq)
qed

section \<open>C1: how an election round concludes\<close>

lemma round_decision:
  assumes "fsmState s = ELECT" "currentMode s = AUTO" "electionEnd s \<le> t_now i"
  shows "(highestTokenSeen s \<le> myToken s \<longrightarrow> fsmState (handleNetworking i s) = LEADER) \<and>
      (myToken s < highestTokenSeen s \<longrightarrow>
         fsmState (handleNetworking i s) = FOLLOWER \<and>
         lastRecvMillis (handleNetworking i s) = t_now i)"
proof (cases "myToken s < highestTokenSeen s")
  case True
  then have "\<not> highestTokenSeen s \<le> myToken s" by simp
  with True assms show ?thesis
    by (simp add: handleNetworking_def caseELECT_def sendToken_def Let_def)
next
  case False
  with assms show ?thesis
    by (simp add: handleNetworking_def caseELECT_fsmState)
qed

lemma round_start_seeds:
  assumes "fsmState f = FOLLOWER" "currentMode f = AUTO"
    and "fsmState (handleNetworking i0 f) = ELECT"
  shows "highestTokenSeen (handleNetworking i0 f) = myToken f"
proof -
  from assms have "LEADER_TIMEOUT < t_now i0 - lastRecvMillis f \<and> 3 \<le> missedFrameCount f + 1"
    by (auto simp: handleNetworking_def caseFOLLOWER_fsmState split: if_splits)
  with assms show ?thesis
    by (simp add: handleNetworking_hts)
qed

lemma unbeaten_round:
  assumes "fsmState s0 = ELECT" "currentMode s0 = AUTO" "highestTokenSeen s0 \<le> myToken s0"
    and "\<forall>e \<in> set es. quietEvent (myToken s0) (electionEnd s0) e"
    and "electionEnd s0 \<le> t_now i1"
  shows "\<exists>s'. run es s0 = Inr s' \<and> fsmState (handleNetworking i1 s') = LEADER"
proof -
  from quiet_round [OF assms(1-4)] obtain s' where s': "run es s0 = Inr s'" "fsmState s' = ELECT"
    "currentMode s' = AUTO" "highestTokenSeen s' \<le> myToken s'"
    "electionEnd s' = electionEnd s0"
    by auto
  from s'(4) have "\<not> myToken s' < highestTokenSeen s'" by simp
  with s' assms(5) have "fsmState (handleNetworking i1 s') = LEADER"
    by (simp add: handleNetworking_def caseELECT_fsmState)
  with s'(1) show ?thesis by blast
qed

text \<open>
  C1. A node in the Electing state whose tick runs (in the participating mode, the only one
  in which \<^verbatim>\<open>handleNetworking\<close> passes line 100) with \<open>now \<ge> electionEnd\<close> concludes its
  round in that tick: it becomes Leader when \<open>highestTokenSeen\<close> does not exceed
  \<open>myToken\<close>, and Follower with \<open>lastRecvMillis = now\<close> when it does. In particular a round
  that starts from a Follower's tick (which seeds \<open>highestTokenSeen\<close> with \<open>myToken\<close>) and
  in which no Heartbeat/Token datagram with a higher token arrives ends with the node as
  Leader, whatever else is delivered and however many ticks run before the round's end.
\<close>

theorem C1_round_concludes:
  "(fsmState s = ELECT \<and> currentMode s = AUTO \<and> electionEnd s \<le> t_now i \<longrightarrow>
      (highestTokenSeen s \<le> myToken s \<longrightarrow> fsmState (handleNetworking i s) = LEADER) \<and>
      (myToken s < highestTokenSeen s \<longrightarrow>
         fsmState (handleNetworking i s) = FOLLOWER \<and>
         lastRecvMillis (handleNetworking i s) = t_now i))
   \<and>
   (fsmState f = FOLLOWER \<and> currentMode f = AUTO \<and>
    fsmState (handleNetworking i0 f) = ELECT \<and>
    (\<forall>e \<in> set es. quietEvent (myToken f) (electionEnd (handleNetworking i0 f)) e) \<and>
    electionEnd (handleNetworking i0 f) \<le> t_now i1 \<longrightarrow>
      (\<exists>s'. run es (handleNetworking i0 f) = Inr s' \<and>
            fsmState (handleNetworking i1 s') = LEADER))"
proof (rule conjI)
  show "fsmState s = ELECT \<and> currentMode s = AUTO \<and> electionEnd s \<le> t_now i \<longrightarrow>
      (highestTokenSeen s \<le> myToken s \<longrightarrow> fsmState (handleNetworking i s) = LEADER) \<and>
      (myToken s < highestTokenSeen s \<longrightarrow>
         fsmState (handleNetworking i s) = FOLLOWER \<and>
         lastRecvMillis (handleNetworking i s) = t_now i)"
    by (intro impI; elim conjE; rule round_decision; assumption)
next
  let ?s0 = "handleNetworking i0 f"
  show "fsmState f = FOLLOWER \<and> currentMode f = AUTO \<and> fsmState ?s0 = ELECT \<and>
    (\<forall>e \<in> set es. quietEvent (myToken f) (electionEnd ?s0) e) \<and>
    electionEnd ?s0 \<le> t_now i1 \<longrightarrow>
      (\<exists>s'. run es ?s0 = Inr s' \<and> fsmState (handleNetworking i1 s') = LEADER)"
  proof (intro impI; elim conjE)
    assume a: "fsmState f = FOLLOWER" "currentMode f = AUTO" "fsmState ?s0 = ELECT"
      "\<forall>e \<in> set es. quietEvent (myToken f) (electionEnd ?s0) e"
      "electionEnd ?s0 \<le> t_now i1"
    have "highestTokenSeen ?s0 \<le> myToken ?s0"
      using round_start_seeds [OF a(1,2,3)] by simp
    moreover have "currentMode ?s0 = AUTO"
      using a(2) by simp
    moreover have "\<forall>e \<in> set es. quietEvent (myToken ?s0) (electionEnd ?s0) e"
      using a(4) by simp
    ultimately show "\<exists>s'. run es ?s0 = Inr s' \<and> fsmState (handleNetworking i1 s') = LEADER"
      using unbeaten_round [of ?s0 es i1] a(3,5) by blast
  qed
qed

theorem C1_round_concludes_witness:
  "fsmState (electing 1) = ELECT \<and> electionEnd (electing 1) \<le> 1841 \<and>
   fsmState (handleNetworking (tickAt 1841 0) (electing 1)) = LEADER \<and>
   fsmState (staleTwice 9) = FOLLOWER \<and>
   (\<exists>s'. run [Recv 1600 (tokenMsg 5), Tick (tickAt 1700 0), Recv 1750 (chunkMsg 0 99 0 [])]
            (electing 9) = Inr s' \<and>
         fsmState (handleNetworking (tickAt 1841 0) s') = LEADER)"
proof -
  have a: "fsmState (electing 1) = ELECT \<and> currentMode (electing 1) = AUTO \<and>
      electionEnd (electing 1) \<le> t_now (tickAt 1841 0)"
    by code_simp
  have b: "highestTokenSeen (electing 1) \<le> myToken (electing 1)"
    by code_simp
  have c: "fsmState (staleTwice 9) = FOLLOWER \<and> currentMode (staleTwice 9) = AUTO \<and>
    fsmState (handleNetworking (tickAt 1541 7) (staleTwice 9)) = ELECT \<and>
    (\<forall>e \<in> set [Recv 1600 (tokenMsg 5), Tick (tickAt 1700 0), Recv 1750 (chunkMsg 0 99 0 [])].
        quietEvent (myToken (staleTwice 9))
          (electionEnd (handleNetworking (tickAt 1541 7) (staleTwice 9))) e) \<and>
    electionEnd (handleNetworking (tickAt 1541 7) (staleTwice 9)) \<le> t_now (tickAt 1841 0)"
    by code_simp
  have d: "electionEnd (electing 1) \<le> 1841"
    by code_simp
  from C1_round_concludes [of "electing 1" "tickAt 1841 0" "staleTwice 9" "tickAt 1541 7"
      "[Recv 1600 (tokenMsg 5), Tick (tickAt 1700 0), Recv 1750 (chunkMsg 0 99 0 [])]"
      "tickAt 1841 0"] a b c d
  show ?thesis
    by (simp add: electing_def)
qed

section \<open>C2: a Leader that sees a higher token steps down\<close>

lemma leader_steps_down_on_tick:
  assumes "fsmState s = LEADER" "currentMode s = AUTO" "myToken s < highestTokenSeen s"
  shows "fsmState (handleNetworking i s) = FOLLOWER \<and>
         chunkMask (handleNetworking i s) = 0 \<and>
         missedFrameCount (handleNetworking i s) = 0 \<and>
         lastRecvMillis (handleNetworking i s) = t_now i"
  using assms by (simp add: handleNetworking_def caseLEADER_def sendToken_def Let_def)

lemma fresh_follower_tick:
  assumes "fsmState s = FOLLOWER" "chunkMask s = 0" "missedFrameCount s = 0"
  shows "fsmState (handleNetworking i s) = FOLLOWER \<and> chunkMask (handleNetworking i s) = 0"
proof (cases "currentMode s = AUTO")
  case True
  with assms show ?thesis
    by (simp add: handleNetworking_def caseFOLLOWER_fsmState caseFOLLOWER_chunkMask u32_small)
next
  case False
  with assms show ?thesis
    by (simp add: handleNetworking_def)
qed

text \<open>
  C2. A Leader that sees a token above its own steps down in the tick of the observation.
  Seen in the sender-token field of a Pixel-Chunk datagram, the receive handler itself makes
  the node a Follower, with \<open>chunkMask = 0\<close>, \<open>missedFrameCount = 0\<close> and
  \<open>lastRecvMillis\<close> set to the time of receipt, and the tick's \<^verbatim>\<open>handleNetworking\<close> leaves it
  a Follower with an empty mask. Seen in a Heartbeat/Token datagram (in the participating
  mode), the handler records the token and the tick's \<^verbatim>\<open>handleNetworking\<close> makes the node a
  Follower with \<open>chunkMask = 0\<close>, \<open>missedFrameCount = 0\<close> and \<open>lastRecvMillis = now\<close>.
\<close>

theorem C2_leader_steps_down:
  "(fsmState s = LEADER \<and> isRawMsg d \<and> myToken s < load32 d 5 \<longrightarrow>
      (\<exists>s'. onRecv now d s = Inr s' \<and> fsmState s' = FOLLOWER \<and> chunkMask s' = 0 \<and>
            missedFrameCount s' = 0 \<and> lastRecvMillis s' = now \<and>
            fsmState (handleNetworking i s') = FOLLOWER \<and>
            chunkMask (handleNetworking i s') = 0))
   \<and>
   (fsmState s = LEADER \<and> currentMode s = AUTO \<and> isTokenMsg d \<and> myToken s < load32 d 1 \<longrightarrow>
      (\<exists>s'. onRecv now d s = Inr s' \<and>
            fsmState (handleNetworking i s') = FOLLOWER \<and>
            chunkMask (handleNetworking i s') = 0 \<and>
            missedFrameCount (handleNetworking i s') = 0 \<and>
            lastRecvMillis (handleNetworking i s') = t_now i))"
proof (rule conjI; intro impI; elim conjE)
  assume a: "fsmState s = LEADER" "isRawMsg d" "myToken s < load32 d 5"
  let ?s' = "s\<lparr>fsmState := FOLLOWER, lastRecvMillis := now, chunkMask := 0,
               missedFrameCount := 0\<rparr>"
  have r: "onRecv now d s = Inr ?s'"
    using a by (simp add: onRecv_raw_LEADER_higher)
  have "fsmState (handleNetworking i ?s') = FOLLOWER \<and> chunkMask (handleNetworking i ?s') = 0"
    by (rule fresh_follower_tick) simp_all
  with r show "\<exists>s'. onRecv now d s = Inr s' \<and> fsmState s' = FOLLOWER \<and> chunkMask s' = 0 \<and>
            missedFrameCount s' = 0 \<and> lastRecvMillis s' = now \<and>
            fsmState (handleNetworking i s') = FOLLOWER \<and>
            chunkMask (handleNetworking i s') = 0"
    by simp
next
  assume a: "fsmState s = LEADER" "currentMode s = AUTO" "isTokenMsg d"
    "myToken s < load32 d 1"
  let ?s' = "s\<lparr>highestTokenSeen := max (highestTokenSeen s) (load32 d 1)\<rparr>"
  have r: "onRecv now d s = Inr ?s'"
    using a by (simp add: onRecv_token)
  have "myToken ?s' < highestTokenSeen ?s'"
    using a(4) by (simp add: less_max_iff_disj)
  then have "fsmState (handleNetworking i ?s') = FOLLOWER \<and>
         chunkMask (handleNetworking i ?s') = 0 \<and>
         missedFrameCount (handleNetworking i ?s') = 0 \<and>
         lastRecvMillis (handleNetworking i ?s') = t_now i"
    using a(1,2) by (intro leader_steps_down_on_tick) simp_all
  with r show "\<exists>s'. onRecv now d s = Inr s' \<and>
            fsmState (handleNetworking i s') = FOLLOWER \<and>
            chunkMask (handleNetworking i s') = 0 \<and>
            missedFrameCount (handleNetworking i s') = 0 \<and>
            lastRecvMillis (handleNetworking i s') = t_now i"
    by simp
qed

theorem C2_leader_steps_down_witness:
  "fsmState (leading 1) = LEADER \<and> myToken (leading 1) = 1 \<and>
   (\<exists>s'. onRecv 1850 (chunkMsg 0 9 0 []) (leading 1) = Inr s' \<and>
         fsmState s' = FOLLOWER \<and> chunkMask s' = 0 \<and> lastRecvMillis s' = 1850) \<and>
   (\<exists>s'. onRecv 1850 (tokenMsg 9) (leading 1) = Inr s' \<and>
         fsmState (handleNetworking (tickAt 1860 0) s') = FOLLOWER \<and>
         chunkMask (handleNetworking (tickAt 1860 0) s') = 0 \<and>
         lastRecvMillis (handleNetworking (tickAt 1860 0) s') = 1860)"
proof -
  have a: "fsmState (leading 1) = LEADER \<and> currentMode (leading 1) = AUTO \<and>
      myToken (leading 1) = 1"
    by code_simp
  have b: "isRawMsg (chunkMsg 0 9 0 []) \<and> load32 (chunkMsg 0 9 0 []) 5 = 9 \<and>
      isTokenMsg (tokenMsg 9) \<and> load32 (tokenMsg 9) 1 = 9"
    by (intro conjI chunkMsg_decodes tokenMsg_decodes)
  have c: "t_now (tickAt 1860 0) = 1860"
    by (simp add: tickAt_def)
  from C2_leader_steps_down [of "leading 1" "chunkMsg 0 9 0 []" 1850 "tickAt 1860 0"]
    C2_leader_steps_down [of "leading 1" "tokenMsg 9" 1850 "tickAt 1860 0"] a b c
  show ?thesis
    by (simp add: isRawMsg_not_token) blast
qed

section \<open>C3: chunk indices past the last chunk\<close>

text \<open>
  C3 (the code departs from it). \<^verbatim>\<open>onRecv\<close> never compares the chunk index with the chunk
  count. A Follower that is handed a Pixel-Chunk datagram with index 4 copies nothing
  (\<^verbatim>\<open>cnt = 0\<close>) but sets bit 4 of \<open>chunkMask\<close>; the mask only gains bits until it is
  found complete, so with the four chunks of a frame it reaches \<open>31\<close>, never \<open>fullMask\<close>. With
  index 5 \<^verbatim>\<open>cnt\<close> is negative and the copy runs outside \<^verbatim>\<open>leds\<close>.
\<close>

theorem C3_index_not_checked:
  "onRecv 10 (chunkMsg 0 9 4 []) (boot 1 0 0) =
     Inr ((boot 1 0 0)\<lparr>chunkMask := 16, lastRecvMillis := 10\<rparr>) \<and>
   chunkMask (boot 1 0 0) = 0 \<and>
   fullMask = 15 \<and> (16 :: u32) OR fullMask = 31 \<and>
   onRecv 10 (chunkMsg 0 9 5 []) (boot 1 0 0) = Inl WriteOutsideLeds"
  by code_simp

section \<open>C4: when \<open>highestTokenSeen\<close> can go down\<close>

text \<open>
  C4 as stated fails: the tick that starts an election round assigns \<open>myToken\<close> to
  \<open>highestTokenSeen\<close> (line 116), whatever was recorded before. The node \<open>heardNine\<close> has
  recorded token 9; its third stale check starts a round and leaves 1.
\<close>

theorem C4_counterexample:
  "\<not> isl heardNine \<and>
   highestTokenSeen (projr heardNine) = 9 \<and>
   highestTokenSeen (handleNetworking (tickAt 1546 7) (projr heardNine)) = 1"
  by code_simp

text \<open>
  C4, amended. No step of a node lowers \<open>highestTokenSeen\<close> except a tick that takes the
  node from Follower to Electing, which sets it to the node's own token: deliveries to
  \<^verbatim>\<open>onRecv\<close>, calls of \<^verbatim>\<open>handleButtons\<close> and every other tick leave it equal or larger.
\<close>

theorem C4_ratchet_between_rounds:
  assumes st: "step e s = Inr s'"
  shows "highestTokenSeen s \<le> highestTokenSeen s' \<or>
   (\<exists>i. e = Tick i \<and> currentMode s = AUTO \<and> fsmState s = FOLLOWER \<and> fsmState s' = ELECT \<and>
        highestTokenSeen s' = myToken s)"
proof (cases e)
  case (Recv now d)
  with st show ?thesis using onRecv_hts_mono [of now d s s'] by simp
next
  case (Tick i)
  with st have s': "s' = handleNetworking i s" by simp
  show ?thesis
  proof (cases "currentMode s = AUTO \<and> fsmState s = FOLLOWER \<and>
         LEADER_TIMEOUT < t_now i - lastRecvMillis s \<and> 3 \<le> missedFrameCount s + 1")
    case True
    then have "fsmState s' = ELECT" "highestTokenSeen s' = myToken s"
      by (simp_all add: s' handleNetworking_def caseFOLLOWER_fsmState caseFOLLOWER_hts)
    with True Tick show ?thesis by simp
  next
    case False
    then have "highestTokenSeen s' = highestTokenSeen s"
      by (auto simp add: s' handleNetworking_hts)
    then show ?thesis by simp
  qed
next
  case (Buttons now a b)
  with st show ?thesis by auto
qed

theorem C4_ratchet_between_rounds_witness:
  "step (Recv 5 (tokenMsg 9)) (boot 1 0 0) =
     Inr ((boot 1 0 0)\<lparr>highestTokenSeen := 9, lastRecvMillis := 5\<rparr>) \<and>
   highestTokenSeen (boot 1 0 0) \<le> 9"
proof -
  have a: "step (Recv 5 (tokenMsg 9)) (boot 1 0 0) =
     Inr ((boot 1 0 0)\<lparr>highestTokenSeen := 9, lastRecvMillis := 5\<rparr>)"
    by code_simp
  from C4_ratchet_between_rounds [OF a] a show ?thesis
    by simp
qed

section \<open>C5: the election delay\<close>

text \<open>
  C5 (the code departs from it). Line 117 multiplies before it divides, in 32-bit
  arithmetic: \<^verbatim>\<open>(0xFFFFFFFF - myToken) * 200\<close> wraps, is even, and so is below
  \<^verbatim>\<open>0xFFFFFFFF\<close>; the quotient is 0 for every token and \<open>myDelay\<close> is the random draw
  alone. The node with token 1 that draws 7 gets \<open>myDelay = 7\<close>, where the formula read in
  exact integers gives 199 + 7.
\<close>

theorem C5_delay_is_jitter_only:
  "(\<forall>tok rnd. electionDelay tok rnd = rnd) \<and>
   fsmState (electing 1) = ELECT \<and> myToken (electing 1) = 1 \<and> myDelay (electing 1) = 7 \<and>
   (uint ELECTION_BASE_DELAY * (0xFFFFFFFF - uint (myToken (electing 1)))) div 0xFFFFFFFF + 7
     = 206"
proof (rule conjI)
  show "\<forall>tok rnd. electionDelay tok rnd = rnd"
    by (simp add: electionDelay_is_random)
  show "fsmState (electing 1) = ELECT \<and> myToken (electing 1) = 1 \<and> myDelay (electing 1) = 7 \<and>
   (uint ELECTION_BASE_DELAY * (0xFFFFFFFF - uint (myToken (electing 1)))) div 0xFFFFFFFF + 7
     = 206"
    by code_simp
qed

section \<open>C6: the third consecutive stale check starts the election\<close>

subsection \<open>Clock readings and the counter\<close>

lemma unat_span_add:
  fixes a b c :: u32
  assumes "unat (b - a) + unat (c - b) < 2 ^ 32"
  shows "unat (c - a) = unat (b - a) + unat (c - b)"
proof -
  have e: "(b - a) + (c - b) = c - a" by simp
  have "unat ((b - a) + (c - b)) = unat (b - a) + unat (c - b)"
    by (rule unat_add_lem [THEN iffD1]) (use assms in simp)
  then show ?thesis unfolding e .
qed

lemma unat_span_sub:
  fixes a b c :: u32
  assumes "unat (b - a) \<le> unat (c - a)"
  shows "unat (c - b) = unat (c - a) - unat (b - a)"
proof -
  have e: "(c - a) - (b - a) = c - b" by simp
  have "b - a \<le> c - a"
    using assms by (simp add: word_le_nat_alt)
  then have "unat ((c - a) - (b - a)) = unat (c - a) - unat (b - a)"
    by (rule unat_sub)
  then show ?thesis unfolding e .
qed

lemma over_iff: "LEADER_TIMEOUT < e \<longleftrightarrow> 1500 < unat e"
  by (simp add: LEADER_TIMEOUT_def word_less_nat_alt)

lemma half_iff: "e < LEADER_TIMEOUT div 2 \<longleftrightarrow> unat e < 750"
  by (simp add: LEADER_TIMEOUT_def word_less_nat_alt)

lemma counter_values:
  "\<not> 3 \<le> (of_nat 0 :: u32) + 1" "\<not> 3 \<le> (of_nat 1 :: u32) + 1" "3 \<le> (of_nat 2 :: u32) + 1"
  by (simp_all add: word_le_nat_alt)

lemma handleButtons_protocol:
  "missedFrameCount (handleButtons now a b s) = missedFrameCount s"
  "\<not> a \<Longrightarrow> lastRecvMillis (handleButtons now a b s) = lastRecvMillis s"
  "a \<Longrightarrow> currentMode s = QUIET \<Longrightarrow>
     currentMode (handleButtons now a b s) = AUTO \<and>
     fsmState (handleButtons now a b s) = FOLLOWER \<and>
     lastRecvMillis (handleButtons now a b s) = now"
  "a \<Longrightarrow> currentMode s \<noteq> QUIET \<Longrightarrow> currentMode (handleButtons now a b s) \<noteq> AUTO"
  by (cases "currentMode s"; simp add: handleButtons_def Let_def)+

lemma tick_into_FOLLOWER:
  assumes "currentMode s = AUTO" "fsmState s \<noteq> FOLLOWER"
    and "fsmState (handleNetworking i s) = FOLLOWER"
  shows "lastRecvMillis (handleNetworking i s) = t_now i"
proof (cases "fsmState s")
  case FOLLOWER
  with assms(2) show ?thesis by simp
next
  case ELECT
  with assms(1,3) show ?thesis
    by (simp add: handleNetworking_def caseELECT_def sendToken_def Let_def split: if_splits)
next
  case LEADER
  with assms(1,3) show ?thesis
    by (simp add: handleNetworking_def caseLEADER_def sendToken_def Let_def split: if_splits)
qed

lemma onRecv_liveness:
  assumes "onRecv now d s = Inr s'" "currentMode s' = AUTO" "fsmState s' = FOLLOWER"
  shows "lastRecvMillis s' = now \<or>
         (currentMode s = AUTO \<and> fsmState s = FOLLOWER \<and>
          lastRecvMillis s' = lastRecvMillis s \<and> missedFrameCount s' = missedFrameCount s)"
proof (cases "isTokenMsg d")
  case True
  from assms show ?thesis
    unfolding onRecv_token [OF True] by (auto split: if_splits)
next
  case False
  note nt = this
  show ?thesis
  proof (cases "isRawMsg d")
    case False
    from assms show ?thesis
      unfolding onRecv_other [OF nt False] by simp
  next
    case True
    then have raw: "\<not> length d < 10" "d ! 0 = MSGTYPE_RAW"
      by (simp_all add: isRawMsg_def)
    have tok: "\<not> (5 \<le> length d \<and> d ! 0 = MSGTYPE_TOKEN)"
      using nt by (simp add: isTokenMsg_def)
    from assms show ?thesis
      unfolding onRecv_def Let_def using raw tok
      by (simp split: if_splits) auto
  qed
qed

lemma check_fresh:
  assumes "currentMode s = AUTO" "fsmState s = FOLLOWER"
    and "unat (lastRecvMillis s - tp) \<le> unat (t_now i - tp)" "unat (t_now i - tp) < 750"
  shows "\<not> LEADER_TIMEOUT < t_now i - lastRecvMillis s"
    and "fsmState (handleNetworking i s) = FOLLOWER"
    and "missedFrameCount (handleNetworking i s) = 0"
    and "unat (t_now i - lastRecvMillis s) \<le> 1500"
proof -
  have e: "unat (t_now i - lastRecvMillis s) < 750"
    using unat_span_sub [OF assms(3)] assms(4) by simp
  then show no: "\<not> LEADER_TIMEOUT < t_now i - lastRecvMillis s"
    by (simp add: over_iff)
  from e have half: "t_now i - lastRecvMillis s < LEADER_TIMEOUT div 2"
    by (simp add: half_iff)
  show "fsmState (handleNetworking i s) = FOLLOWER"
    using assms(1,2) no by (simp add: handleNetworking_def caseFOLLOWER_fsmState)
  show "missedFrameCount (handleNetworking i s) = 0"
    using assms(1,2) no half by (simp add: handleNetworking_def caseFOLLOWER_missed)
  show "unat (t_now i - lastRecvMillis s) \<le> 1500"
    using e by simp
qed

lemma check_stale:
  assumes "currentMode s = AUTO" "fsmState s = FOLLOWER"
    and "missedFrameCount s = of_nat k" "k \<le> 2"
    and "k = 0 \<longrightarrow> unat (tp - lastRecvMillis s) \<le> 1500"
    and "0 < k \<longrightarrow> 1500 < unat (tp - lastRecvMillis s) \<and>
           unat (tp - lastRecvMillis s) \<le> 1500 + k * 750"
    and "unat (t_now i - tp) < 750"
  shows "LEADER_TIMEOUT < t_now i - lastRecvMillis s \<longrightarrow>
           (fsmState (handleNetworking i s) = ELECT \<longleftrightarrow> k = 2) \<and>
           (k < 2 \<longrightarrow> fsmState (handleNetworking i s) = FOLLOWER \<and>
              missedFrameCount (handleNetworking i s) = of_nat (k + 1) \<and>
              1500 < unat (t_now i - lastRecvMillis s) \<and>
              unat (t_now i - lastRecvMillis s) \<le> 1500 + (k + 1) * 750)"
    and "\<not> LEADER_TIMEOUT < t_now i - lastRecvMillis s \<longrightarrow>
           k = 0 \<and> fsmState (handleNetworking i s) = FOLLOWER \<and>
           missedFrameCount (handleNetworking i s) = 0 \<and>
           unat (t_now i - lastRecvMillis s) \<le> 1500"
proof -
  let ?L = "lastRecvMillis s"
  have bound: "unat (tp - ?L) \<le> 1500 + k * 750"
    using assms(5,6) by (cases "k = 0") simp_all
  with assms(4,7) have "unat (tp - ?L) + unat (t_now i - tp) < 2 ^ 32"
    by simp
  then have e: "unat (t_now i - ?L) = unat (tp - ?L) + unat (t_now i - tp)"
    by (rule unat_span_add)
  from assms(4) consider "k = 0" | "k = 1" | "k = 2"
    by linarith
  then have cnt: "(3 \<le> missedFrameCount s + 1) \<longleftrightarrow> k = 2"
    using assms(3) by cases (simp_all add: word_le_nat_alt)
  show "LEADER_TIMEOUT < t_now i - ?L \<longrightarrow>
           (fsmState (handleNetworking i s) = ELECT \<longleftrightarrow> k = 2) \<and>
           (k < 2 \<longrightarrow> fsmState (handleNetworking i s) = FOLLOWER \<and>
              missedFrameCount (handleNetworking i s) = of_nat (k + 1) \<and>
              1500 < unat (t_now i - ?L) \<and>
              unat (t_now i - ?L) \<le> 1500 + (k + 1) * 750)"
  proof
    assume over: "LEADER_TIMEOUT < t_now i - ?L"
    have f: "fsmState (handleNetworking i s) = (if k = 2 then ELECT else FOLLOWER)"
      using assms(1,2) over cnt by (simp add: handleNetworking_def caseFOLLOWER_fsmState)
    have m: "k < 2 \<longrightarrow> missedFrameCount (handleNetworking i s) = of_nat (k + 1)"
      using assms(1,2,3) over cnt by (simp add: handleNetworking_def caseFOLLOWER_missed)
    have "1500 < unat (t_now i - ?L)"
      using over by (simp add: over_iff)
    moreover have "unat (t_now i - ?L) \<le> 1500 + (k + 1) * 750"
      using e bound assms(7) by simp
    ultimately show "(fsmState (handleNetworking i s) = ELECT \<longleftrightarrow> k = 2) \<and>
           (k < 2 \<longrightarrow> fsmState (handleNetworking i s) = FOLLOWER \<and>
              missedFrameCount (handleNetworking i s) = of_nat (k + 1) \<and>
              1500 < unat (t_now i - ?L) \<and>
              unat (t_now i - ?L) \<le> 1500 + (k + 1) * 750)"
      using f m by simp
  qed
  show "\<not> LEADER_TIMEOUT < t_now i - ?L \<longrightarrow>
           k = 0 \<and> fsmState (handleNetworking i s) = FOLLOWER \<and>
           missedFrameCount (handleNetworking i s) = 0 \<and>
           unat (t_now i - ?L) \<le> 1500"
  proof
    assume no: "\<not> LEADER_TIMEOUT < t_now i - ?L"
    then have le: "unat (t_now i - ?L) \<le> 1500"
      by (simp add: over_iff)
    with e have "unat (tp - ?L) \<le> 1500" by simp
    with assms(6) have k0: "k = 0" by auto
    have "fsmState (handleNetworking i s) = FOLLOWER"
      using assms(1,2) no by (simp add: handleNetworking_def caseFOLLOWER_fsmState)
    moreover have "missedFrameCount (handleNetworking i s) = 0"
      using assms(1,2,3) no k0 by (simp add: handleNetworking_def caseFOLLOWER_missed)
    ultimately show "k = 0 \<and> fsmState (handleNetworking i s) = FOLLOWER \<and>
           missedFrameCount (handleNetworking i s) = 0 \<and>
           unat (t_now i - ?L) \<le> 1500"
      using k0 le by simp
  qed
qed

lemma linked_boot: "linked tRecv tRecv 0 (boot tok tRecv tBeat)"
  by (simp add: linked_def boot_def)

lemma linked_Deliver:
  assumes "linked tp tc k s" "tc - tp \<le> now - tp" "onRecv now d s = Inr s'"
  shows "linked tp now k s'"
  unfolding linked_def
proof (intro impI; elim conjE)
  assume fa: "currentMode s' = AUTO" "fsmState s' = FOLLOWER"
  let ?stale = "\<lambda>s. missedFrameCount s = of_nat k \<and> k \<le> 2 \<and>
         (k = 0 \<longrightarrow> unat (tp - lastRecvMillis s) \<le> 1500) \<and>
         (0 < k \<longrightarrow> 1500 < unat (tp - lastRecvMillis s) \<and>
                   unat (tp - lastRecvMillis s) \<le> 1500 + k * 750)"
  from onRecv_liveness [OF assms(3) fa]
  consider "lastRecvMillis s' = now"
    | "currentMode s = AUTO" "fsmState s = FOLLOWER" "lastRecvMillis s' = lastRecvMillis s"
      "missedFrameCount s' = missedFrameCount s"
    by blast
  then show "?stale s' \<or> unat (lastRecvMillis s' - tp) \<le> unat (now - tp)"
  proof cases
    case 1
    then show ?thesis by simp
  next
    case 2
    with assms(1) have "?stale s \<or> unat (lastRecvMillis s - tp) \<le> unat (tc - tp)"
      by (simp add: linked_def)
    moreover have "unat (tc - tp) \<le> unat (now - tp)"
      using assms(2) by (simp add: word_le_nat_alt)
    ultimately show ?thesis
      using 2(3,4) by auto
  qed
qed

lemma linked_Iterate:
  assumes lk: "linked tp tc k s"
    and t1: "tc - tp \<le> l_now li - tp"
    and t2: "l_now li - tp \<le> t_now (l_tick li) - tp"
    and t3: "t_now (l_tick li) - tp < LEADER_TIMEOUT div 2"
  shows "linked (t_now (l_tick li)) (t_now (l_tick li)) (streakStep (Iterate li) s k) (loop li s)"
    and "livenessCheck li s \<Longrightarrow>
           (fsmState (loop li s) = ELECT \<longleftrightarrow> overThreshold li s \<and> k = 2) \<and>
           (fsmState (loop li s) = FOLLOWER \<longleftrightarrow> \<not> (overThreshold li s \<and> k = 2))"
proof -
  let ?i = "l_tick li"
  let ?t = "t_now ?i"
  let ?s1 = "handleButtons (l_now li) (l_btnA li) (l_btnB li) s"
  let ?L = "lastRecvMillis ?s1"
  have u1: "unat (tc - tp) \<le> unat (l_now li - tp)"
    using t1 by (simp add: word_le_nat_alt)
  have u2: "unat (l_now li - tp) \<le> unat (?t - tp)"
    using t2 by (simp add: word_le_nat_alt)
  have u3: "unat (?t - tp) < 750"
    using t3 by (simp add: half_iff)
  have both: "linked ?t ?t (streakStep (Iterate li) s k) (loop li s) \<and>
      (livenessCheck li s \<longrightarrow>
           (fsmState (loop li s) = ELECT \<longleftrightarrow> overThreshold li s \<and> k = 2) \<and>
           (fsmState (loop li s) = FOLLOWER \<longleftrightarrow> \<not> (overThreshold li s \<and> k = 2)))"
  proof (cases "currentMode ?s1 = AUTO")
    case False
    then have "currentMode (loop li s) \<noteq> AUTO"
      by (simp add: loop_def Let_def)
    with False show ?thesis
      by (simp add: linked_def livenessCheck_def)
  next
    case True
    then have lp: "loop li s = handleNetworking ?i ?s1"
      by (simp add: loop_def Let_def)
    show ?thesis
    proof (cases "fsmState ?s1 = FOLLOWER")
      case False
      then have nc: "\<not> livenessCheck li s"
        by (simp add: livenessCheck_def)
      have "fsmState (loop li s) = FOLLOWER \<longrightarrow> lastRecvMillis (loop li s) = ?t"
        unfolding lp using tick_into_FOLLOWER [OF True False] by blast
      then have "linked ?t ?t k (loop li s)"
        by (auto simp: linked_def)
      with nc show ?thesis by simp
    next
      case F: True
      then have chk: "livenessCheck li s"
        using True by (simp add: livenessCheck_def)
      have ov: "overThreshold li s \<longleftrightarrow> LEADER_TIMEOUT < ?t - ?L"
        by (simp add: overThreshold_def)
      have keep: "currentMode (loop li s) = AUTO" "lastRecvMillis (loop li s) = ?L \<or> fsmState (loop li s) \<noteq> FOLLOWER"
        unfolding lp using True F by (simp_all add: handleNetworking_def)
      have fresh_or_stale:
        "(missedFrameCount ?s1 = of_nat k \<and> k \<le> 2 \<and>
           (k = 0 \<longrightarrow> unat (tp - ?L) \<le> 1500) \<and>
           (0 < k \<longrightarrow> 1500 < unat (tp - ?L) \<and> unat (tp - ?L) \<le> 1500 + k * 750))
         \<or> unat (?L - tp) \<le> unat (?t - tp)"
      proof (cases "l_btnA li")
        case A: True
        have "currentMode s = QUIET"
          using handleButtons_protocol(4) [OF A, of s "l_now li" "l_btnB li"] True by blast
        then have "?L = l_now li"
          using handleButtons_protocol(3) [OF A] by simp
        with u2 show ?thesis by simp
      next
        case nA: False
        then have same: "currentMode ?s1 = currentMode s" "fsmState ?s1 = fsmState s"
          "?L = lastRecvMillis s" "missedFrameCount ?s1 = missedFrameCount s"
          by (simp_all add: handleButtons_noA handleButtons_protocol)
        with True F lk have
          "(missedFrameCount s = of_nat k \<and> k \<le> 2 \<and>
             (k = 0 \<longrightarrow> unat (tp - lastRecvMillis s) \<le> 1500) \<and>
             (0 < k \<longrightarrow> 1500 < unat (tp - lastRecvMillis s) \<and>
                unat (tp - lastRecvMillis s) \<le> 1500 + k * 750))
           \<or> unat (lastRecvMillis s - tp) \<le> unat (tc - tp)"
          by (simp add: linked_def)
        then show ?thesis
          using same u1 u2 by auto
      qed
      then show ?thesis
      proof
        assume fresh: "unat (?L - tp) \<le> unat (?t - tp)"
        note r = check_fresh [OF True F fresh u3]
        have "streakStep (Iterate li) s k = 0"
          using chk ov r(1) by simp
        moreover have "linked ?t ?t 0 (loop li s)"
          using r(2,3,4) keep unfolding lp by (auto simp: linked_def)
        moreover have "\<not> overThreshold li s" "fsmState (loop li s) = FOLLOWER"
          using ov r(1,2) unfolding lp by simp_all
        ultimately show ?thesis by simp
      next
        assume stale: "missedFrameCount ?s1 = of_nat k \<and> k \<le> 2 \<and>
           (k = 0 \<longrightarrow> unat (tp - ?L) \<le> 1500) \<and>
           (0 < k \<longrightarrow> 1500 < unat (tp - ?L) \<and> unat (tp - ?L) \<le> 1500 + k * 750)"
        then have st: "missedFrameCount ?s1 = of_nat k" "k \<le> 2"
          "k = 0 \<longrightarrow> unat (tp - ?L) \<le> 1500"
          "0 < k \<longrightarrow> 1500 < unat (tp - ?L) \<and> unat (tp - ?L) \<le> 1500 + k * 750"
          by simp_all
        note r = check_stale [OF True F st u3]
        show ?thesis
        proof (cases "overThreshold li s")
          case over: True
          then have o: "LEADER_TIMEOUT < ?t - ?L" using ov by simp
          have step: "streakStep (Iterate li) s k = k + 1"
            using chk over by simp
          show ?thesis
          proof (cases "k = 2")
            case True
            then have "fsmState (loop li s) = ELECT"
              using r(1) o unfolding lp by simp
            then show ?thesis
              using over True by (simp add: linked_def)
          next
            case False
            with st(2) have k2: "k < 2" by simp
            with r(1) o have n: "fsmState (loop li s) = FOLLOWER"
              "missedFrameCount (loop li s) = of_nat (k + 1)"
              "1500 < unat (?t - ?L)" "unat (?t - ?L) \<le> 1500 + (k + 1) * 750"
              unfolding lp by simp_all
            have "lastRecvMillis (loop li s) = ?L"
              using keep(2) n(1) by simp
            with n k2 have "linked ?t ?t (k + 1) (loop li s)"
              by (simp add: linked_def)
            with step n(1) False show ?thesis by simp
          qed
        next
          case no: False
          then have o: "\<not> LEADER_TIMEOUT < ?t - ?L" using ov by simp
          with r(2) have n: "k = 0" "fsmState (loop li s) = FOLLOWER"
            "missedFrameCount (loop li s) = 0" "unat (?t - ?L) \<le> 1500"
            unfolding lp by simp_all
          have "lastRecvMillis (loop li s) = ?L"
            using keep(2) n(2) by simp
          with n have "linked ?t ?t 0 (loop li s)"
            by (simp add: linked_def)
          moreover have "streakStep (Iterate li) s k = 0"
            using chk no by simp
          ultimately show ?thesis
            using no n(2) by simp
        qed
      qed
    qed
  qed
  from both show "linked ?t ?t (streakStep (Iterate li) s k) (loop li s)"
    by simp
  from both show "livenessCheck li s \<Longrightarrow>
           (fsmState (loop li s) = ELECT \<longleftrightarrow> overThreshold li s \<and> k = 2) \<and>
           (fsmState (loop li s) = FOLLOWER \<longleftrightarrow> \<not> (overThreshold li s \<and> k = 2))"
    by simp
qed

lemma third_consecutive_check:
  assumes "linked tp tc k s" "timely tp tc (as @ [Iterate li])" "acts as s = Inr s'"
    and "livenessCheck li s'"
  shows "(fsmState (loop li s') = ELECT \<longleftrightarrow> overThreshold li s' \<and> streak as s k = 2) \<and>
         (fsmState (loop li s') = FOLLOWER \<longleftrightarrow> \<not> (overThreshold li s' \<and> streak as s k = 2))"
  using assms(1,2,3)
proof (induction as arbitrary: tp tc k s)
  case Nil
  then have "s' = s" by simp
  with Nil assms(4) show ?case
    using linked_Iterate(2) [of tp tc k s li] by simp
next
  case (Cons a as)
  from Cons.prems(3) obtain s1 where s1: "act a s = Inr s1" "acts as s1 = Inr s'"
    by (auto split: sum.splits)
  have st: "streak (a # as) s k = streak as s1 (streakStep a s k)"
    using s1(1) by simp
  show ?case
  proof (cases a)
    case (Deliver now d)
    with Cons.prems(2) have t: "tc - tp \<le> now - tp" "timely tp now (as @ [Iterate li])"
      by simp_all
    from Deliver s1(1) have "onRecv now d s = Inr s1" by simp
    from linked_Deliver [OF Cons.prems(1) t(1) this]
    have "linked tp now (streakStep a s k) s1"
      using Deliver by simp
    from Cons.IH [OF this t(2) s1(2)] st show ?thesis by simp
  next
    case (Iterate lj)
    let ?t = "t_now (l_tick lj)"
    from Iterate Cons.prems(2) have t: "tc - tp \<le> l_now lj - tp"
      "l_now lj - tp \<le> ?t - tp" "?t - tp < LEADER_TIMEOUT div 2"
      "timely ?t ?t (as @ [Iterate li])"
      by simp_all
    from Iterate s1(1) have "s1 = loop lj s" by simp
    with linked_Iterate(1) [OF Cons.prems(1) t(1,2,3)]
    have "linked ?t ?t (streakStep a s k) s1"
      using Iterate by simp
    from Cons.IH [OF this t(4) s1(2)] st show ?thesis by simp
  qed
qed

text \<open>
  C6. Take any run of a device from start-up whose clock never goes backwards and whose
  loop iterations follow each other in less than half the leader timeout. At every liveness
  check (a tick that finds the node a Follower in the participating mode) the node becomes
  Electing exactly when the check is over the threshold
  (\<open>now - lastRecvMillis > LEADER_TIMEOUT\<close>) and the streak of over-threshold liveness
  checks right before it is 2, that is, on the third consecutive such check; at every other
  liveness check it remains Follower. In particular no over-threshold check that follows a
  check within the threshold starts the election by itself.
\<close>

theorem C6_third_consecutive_check:
  assumes "timely tRecv tRecv (as @ [Iterate li])"
    and "acts as (boot tok tRecv tBeat) = Inr s"
    and "livenessCheck li s"
  shows "(fsmState (loop li s) = ELECT \<longleftrightarrow>
            overThreshold li s \<and> streak as (boot tok tRecv tBeat) 0 = 2) \<and>
         (fsmState (loop li s) = FOLLOWER \<longleftrightarrow>
            \<not> (overThreshold li s \<and> streak as (boot tok tRecv tBeat) 0 = 2))"
  using linked_boot assms by (rule third_consecutive_check)

theorem C6_third_consecutive_check_witness:
  "timely 0 0 (fourChecks @ [Iterate (iterAt 3500 False)]) \<and>
   streak fourChecks (boot 1 0 0) 0 = 2 \<and>
   (\<exists>s. acts fourChecks (boot 1 0 0) = Inr s \<and> fsmState s = FOLLOWER \<and>
        overThreshold (iterAt 3500 False) s \<and>
        fsmState (loop (iterAt 3500 False) s) = ELECT) \<and>
   timely 0 0 (backInAuto @ [Iterate (iterAt 5500 False)]) \<and>
   streak backInAuto (boot 1 0 0) 0 = 0 \<and>
   (\<exists>s. acts backInAuto (boot 1 0 0) = Inr s \<and> fsmState s = FOLLOWER \<and>
        overThreshold (iterAt 5500 False) s \<and>
        fsmState (loop (iterAt 5500 False) s) = FOLLOWER)"
proof -
  let ?s1 = "projr (acts fourChecks (boot 1 0 0))"
  let ?s2 = "projr (acts backInAuto (boot 1 0 0))"
  have t: "timely 0 0 (fourChecks @ [Iterate (iterAt 3500 False)])"
    "timely 0 0 (backInAuto @ [Iterate (iterAt 5500 False)])"
    by code_simp+
  have "\<not> isl (acts fourChecks (boot 1 0 0))" "\<not> isl (acts backInAuto (boot 1 0 0))"
    by code_simp+
  then have r: "acts fourChecks (boot 1 0 0) = Inr ?s1" "acts backInAuto (boot 1 0 0) = Inr ?s2"
    by simp_all
  have c: "livenessCheck (iterAt 3500 False) ?s1" "livenessCheck (iterAt 5500 False) ?s2"
    "fsmState ?s1 = FOLLOWER" "fsmState ?s2 = FOLLOWER"
    by code_simp+
  have o: "overThreshold (iterAt 3500 False) ?s1" "overThreshold (iterAt 5500 False) ?s2"
    by code_simp+
  have k: "streak fourChecks (boot 1 0 0) 0 = 2" "streak backInAuto (boot 1 0 0) 0 = 0"
    by code_simp+
  from C6_third_consecutive_check [OF t(1) r(1) c(1)] o(1) k(1)
  have "fsmState (loop (iterAt 3500 False) ?s1) = ELECT"
    by simp
  moreover from C6_third_consecutive_check [OF t(2) r(2) c(2)] o(2) k(2)
  have "fsmState (loop (iterAt 5500 False) ?s2) = FOLLOWER"
    by simp
  ultimately show ?thesis
    using t r c(3,4) o k by blast
qed

section \<open>C7: when a frame is complete\<close>

lemma consume_frame:
  assumes "fsmState s = FOLLOWER" "currentMode s = AUTO" "chunkMask s = fullMask"
  shows "chunkMask (handleNetworking i s) = 0"
    and "currentMode (handleNetworking i s) = AUTO"
  using assms by (simp_all add: handleNetworking_def caseFOLLOWER_chunkMask)

text \<open>
  C7. A Follower with an empty completion mask that is handed well-formed Pixel-Chunk
  datagrams (any number, in any order, repeats allowed) has a complete frame
  (\<open>chunkMask = fullMask\<close>) exactly when the indices delivered are all of
  \<open>0 .. chunkCount - 1\<close>: the four indices once each in any order complete it, a strict
  subset does not. And when the tick consumes a complete frame the mask is 0 again, so the
  same holds for the deliveries after it.
\<close>

theorem C7_frame_complete:
  "(fsmState s = FOLLOWER \<and> currentMode s = AUTO \<and> chunkMask s = 0 \<and>
    (\<forall>(t, d) \<in> set ds. wellFormedChunk d) \<longrightarrow>
      (\<exists>s'. run (deliveries ds) s = Inr s' \<and>
            (chunkMask s' = fullMask \<longleftrightarrow>
               (chunkIndex \<circ> snd) ` set ds = {0 ..< chunkCount})))
   \<and>
   (fsmState s = FOLLOWER \<and> currentMode s = AUTO \<and> chunkMask s = fullMask \<and>
    fsmState (handleNetworking i s) = FOLLOWER \<and>
    (\<forall>(t, d) \<in> set ds. wellFormedChunk d) \<longrightarrow>
      chunkMask (handleNetworking i s) = 0 \<and>
      (\<exists>s'. run (deliveries ds) (handleNetworking i s) = Inr s' \<and>
            (chunkMask s' = fullMask \<longleftrightarrow>
               (chunkIndex \<circ> snd) ` set ds = {0 ..< chunkCount})))"
proof (rule conjI; intro impI; elim conjE)
  assume "fsmState s = FOLLOWER" "currentMode s = AUTO" "chunkMask s = 0"
    "\<forall>(t, d) \<in> set ds. wellFormedChunk d"
  then show "\<exists>s'. run (deliveries ds) s = Inr s' \<and>
            (chunkMask s' = fullMask \<longleftrightarrow> (chunkIndex \<circ> snd) ` set ds = {0 ..< chunkCount})"
    by (rule recv_chunks_complete)
next
  let ?s0 = "handleNetworking i s"
  assume a: "fsmState s = FOLLOWER" "currentMode s = AUTO" "chunkMask s = fullMask"
    "fsmState ?s0 = FOLLOWER" "\<forall>(t, d) \<in> set ds. wellFormedChunk d"
  have z: "chunkMask ?s0 = 0" "currentMode ?s0 = AUTO"
    using consume_frame [OF a(1,2,3)] by simp_all
  from recv_chunks_complete [OF a(4) z(2) z(1) a(5)] z(1)
  show "chunkMask ?s0 = 0 \<and>
      (\<exists>s'. run (deliveries ds) ?s0 = Inr s' \<and>
            (chunkMask s' = fullMask \<longleftrightarrow> (chunkIndex \<circ> snd) ` set ds = {0 ..< chunkCount}))"
    by simp
qed

lemma blackChunk_wellFormed: "k < 4 \<Longrightarrow> wellFormedChunk (blackChunk k)"
proof -
  assume k: "k < 4"
  then have "unat k < 4"
    by (simp add: word_less_nat_alt)
  then have i: "chunkIndex (blackChunk k) < 4"
    by (simp add: blackChunk_def chunkMsg_decodes)
  then have "min 75 (NUM_LEDS - chunkIndex (blackChunk k) * 75) = 75"
    unfolding NUM_LEDS_def by arith
  moreover have "length (blackChunk k) = 235" "blackChunk k ! 0 = MSGTYPE_RAW"
    by (simp_all add: blackChunk_def chunkMsg_def store32_def)
  ultimately show ?thesis
    using i by (simp add: wellFormedChunk_def chunkCount_eq)
qed

theorem C7_frame_complete_witness:
  "(\<exists>s'. run (deliveries [(10, blackChunk 2), (11, blackChunk 0), (12, blackChunk 3),
                          (13, blackChunk 1)]) (boot 1 0 0) = Inr s' \<and>
         chunkMask s' = fullMask) \<and>
   (\<exists>s'. run (deliveries [(10, blackChunk 0), (11, blackChunk 1), (12, blackChunk 2)])
            (boot 1 0 0) = Inr s' \<and>
         chunkMask s' \<noteq> fullMask) \<and>
   chunkMask (handleNetworking (tickAt 20 0) ((boot 1 0 0)\<lparr>chunkMask := fullMask\<rparr>)) = 0 \<and>
   (\<exists>s'. run (deliveries [(30, blackChunk 3), (31, blackChunk 3)])
            (handleNetworking (tickAt 20 0) ((boot 1 0 0)\<lparr>chunkMask := fullMask\<rparr>)) = Inr s' \<and>
         chunkMask s' \<noteq> fullMask)"
proof -
  let ?all = "[(10 :: u32, blackChunk 2), (11, blackChunk 0), (12, blackChunk 3),
               (13, blackChunk 1)]"
  let ?some = "[(10 :: u32, blackChunk 0), (11, blackChunk 1), (12, blackChunk 2)]"
  let ?twice = "[(30 :: u32, blackChunk 3), (31, blackChunk 3)]"
  let ?full = "(boot 1 0 0)\<lparr>chunkMask := fullMask\<rparr>"
  have b: "fsmState (boot 1 0 0) = FOLLOWER \<and> currentMode (boot 1 0 0) = AUTO \<and>
      chunkMask (boot 1 0 0) = 0"
    by (simp add: boot_def)
  have f: "fsmState ?full = FOLLOWER \<and> currentMode ?full = AUTO \<and> chunkMask ?full = fullMask \<and>
      fsmState (handleNetworking (tickAt 20 0) ?full) = FOLLOWER"
    by code_simp
  have wf: "\<forall>(t, d) \<in> set ?all. wellFormedChunk d" "\<forall>(t, d) \<in> set ?some. wellFormedChunk d"
    "\<forall>(t, d) \<in> set ?twice. wellFormedChunk d"
    by (simp_all add: blackChunk_wellFormed)
  have ix: "(chunkIndex \<circ> snd) ` set ?all = {0 ..< chunkCount}"
    by (auto simp: blackChunk_def chunkMsg_decodes chunkCount_eq)
  have "3 \<in> {0 ..< chunkCount}" "3 \<notin> (chunkIndex \<circ> snd) ` set ?some"
    by (simp_all add: blackChunk_def chunkMsg_decodes chunkCount_eq)
  then have ix2: "(chunkIndex \<circ> snd) ` set ?some \<noteq> {0 ..< chunkCount}"
    by metis
  have "0 \<in> {0 ..< chunkCount}" "0 \<notin> (chunkIndex \<circ> snd) ` set ?twice"
    by (simp_all add: blackChunk_def chunkMsg_decodes chunkCount_eq)
  then have ix3: "(chunkIndex \<circ> snd) ` set ?twice \<noteq> {0 ..< chunkCount}"
    by metis
  from C7_frame_complete [of "boot 1 0 0" ?all "tickAt 20 0"]
    C7_frame_complete [of "boot 1 0 0" ?some "tickAt 20 0"]
    C7_frame_complete [of ?full ?twice "tickAt 20 0"]
    b f wf ix ix2 ix3
  show ?thesis
    by simp
qed

section \<open>C8: leaving the participating mode\<close>

text \<open>
  C8 as stated fails: the click on button A that takes the node from AUTO to GO changes
  \<open>currentMode\<close> and \<open>freezeActive\<close> only. The node \<open>electing 1\<close> is still Electing, in the
  same round (ending at 1841 ms), after the click; the node \<open>staleTwice 1\<close> keeps its
  missed-check count of 2.
\<close>

theorem C8_counterexample:
  "currentMode (electing 1) = AUTO \<and> fsmState (electing 1) = ELECT \<and>
   currentMode (handleButtons 1600 True False (electing 1)) = GO \<and>
   fsmState (handleButtons 1600 True False (electing 1)) = ELECT \<and>
   electionEnd (handleButtons 1600 True False (electing 1)) = 1841 \<and>
   currentMode (handleButtons 1530 True False (staleTwice 1)) = GO \<and>
   missedFrameCount (handleButtons 1530 True False (staleTwice 1)) = 2"
  by code_simp

text \<open>
  C8, amended. A click on button A in AUTO mode moves the node to GO and leaves the role,
  the completion mask, the pixel buffer, the missed-check counter, \<open>lastRecvMillis\<close> and
  the election-round variables as they were. Outside AUTO a tick changes nothing, so a round
  in progress neither advances nor concludes. The reset comes when the node returns: the
  click that takes it from QUIET to AUTO makes it a Follower with \<open>lastRecvMillis = now\<close>,
  which is what ends a round that was in progress.
\<close>

theorem C8_mode_change_suspends:
  "(currentMode s = AUTO \<longrightarrow>
      currentMode (handleButtons now True b s) = GO \<and>
      fsmState (handleButtons now True b s) = fsmState s \<and>
      chunkMask (handleButtons now True b s) = chunkMask s \<and>
      leds (handleButtons now True b s) = leds s \<and>
      missedFrameCount (handleButtons now True b s) = missedFrameCount s \<and>
      lastRecvMillis (handleButtons now True b s) = lastRecvMillis s \<and>
      electionStart (handleButtons now True b s) = electionStart s \<and>
      electionEnd (handleButtons now True b s) = electionEnd s \<and>
      myDelay (handleButtons now True b s) = myDelay s \<and>
      electionBroadcasted (handleButtons now True b s) = electionBroadcasted s \<and>
      highestTokenSeen (handleButtons now True b s) = highestTokenSeen s)
   \<and> (currentMode s \<noteq> AUTO \<longrightarrow> handleNetworking i s = s)
   \<and> (currentMode s = QUIET \<longrightarrow>
      currentMode (handleButtons now True b s) = AUTO \<and>
      fsmState (handleButtons now True b s) = FOLLOWER \<and>
      lastRecvMillis (handleButtons now True b s) = now)"
proof (intro conjI)
  show "currentMode s = AUTO \<longrightarrow>
      currentMode (handleButtons now True b s) = GO \<and>
      fsmState (handleButtons now True b s) = fsmState s \<and>
      chunkMask (handleButtons now True b s) = chunkMask s \<and>
      leds (handleButtons now True b s) = leds s \<and>
      missedFrameCount (handleButtons now True b s) = missedFrameCount s \<and>
      lastRecvMillis (handleButtons now True b s) = lastRecvMillis s \<and>
      electionStart (handleButtons now True b s) = electionStart s \<and>
      electionEnd (handleButtons now True b s) = electionEnd s \<and>
      myDelay (handleButtons now True b s) = myDelay s \<and>
      electionBroadcasted (handleButtons now True b s) = electionBroadcasted s \<and>
      highestTokenSeen (handleButtons now True b s) = highestTokenSeen s"
    by (simp add: handleButtons_def Let_def)
  show "currentMode s \<noteq> AUTO \<longrightarrow> handleNetworking i s = s"
    by (simp add: handleNetworking_def)
  show "currentMode s = QUIET \<longrightarrow>
      currentMode (handleButtons now True b s) = AUTO \<and>
      fsmState (handleButtons now True b s) = FOLLOWER \<and>
      lastRecvMillis (handleButtons now True b s) = now"
    by (simp add: handleButtons_def Let_def)
qed

theorem C8_mode_change_suspends_witness:
  "currentMode (electing 1) = AUTO \<and>
   fsmState (handleButtons 1600 True False (electing 1)) = fsmState (electing 1) \<and>
   handleNetworking (tickAt 1841 0) (handleButtons 1600 True False (electing 1)) =
     handleButtons 1600 True False (electing 1) \<and>
   fsmState (handleButtons 1700 True False
              (handleButtons 1650 True False (handleButtons 1600 True False (electing 1))))
     = FOLLOWER"
proof -
  let ?go = "handleButtons 1600 True False (electing 1)"
  let ?quiet = "handleButtons 1650 True False ?go"
  have a: "currentMode (electing 1) = AUTO" "currentMode ?go \<noteq> AUTO" "currentMode ?quiet = QUIET"
    by code_simp+
  from C8_mode_change_suspends [of "electing 1" 1600 False "tickAt 1841 0"]
    C8_mode_change_suspends [of ?go 1650 False "tickAt 1841 0"]
    C8_mode_change_suspends [of ?quiet 1700 False "tickAt 1841 0"] a
  show ?thesis
    by simp
qed

section \<open>C9: pixel chunks do not feed the election\<close>

lemma raw_deliveries_ELECT:
  assumes "fsmState s = ELECT" "\<forall>(t, d) \<in> set ds. isRawMsg d"
  shows "run (deliveries ds) s = Inr s"
  using assms(2)
proof (induction ds)
  case Nil
  show ?case by (simp add: deliveries_def)
next
  case (Cons td ds)
  obtain t d where td: "td = (t, d)" by (cases td)
  with Cons.prems have "isRawMsg d" by simp
  then have "onRecv t d s = Inr s"
    using assms(1) by (rule onRecv_raw_ELECT)
  moreover have "run (deliveries ds) s = Inr s"
    using Cons by simp
  ultimately show ?case
    by (simp add: deliveries_def td)
qed

text \<open>
  C9. Whatever \<^verbatim>\<open>onRecv\<close> does with a datagram that is not a Heartbeat/Token datagram, it
  leaves \<open>highestTokenSeen\<close> as it was; Pixel-Chunk datagrams are such datagrams. An
  Electing node ignores Pixel-Chunk datagrams altogether, whatever sender token they carry,
  so a node whose round has seen no higher token in a heartbeat ends it as Leader even when
  every chunk it received during the round came from a leader with a higher token.
\<close>

theorem C9_chunks_not_recorded:
  "(\<not> isTokenMsg d \<and> onRecv now d s = Inr s' \<longrightarrow> highestTokenSeen s' = highestTokenSeen s)
   \<and> (isRawMsg d \<longrightarrow> \<not> isTokenMsg d)
   \<and> (fsmState s = ELECT \<and> currentMode s = AUTO \<and> highestTokenSeen s \<le> myToken s \<and>
       (\<forall>(t, d) \<in> set ds. isRawMsg d) \<and>
       electionEnd s \<le> t_now i \<longrightarrow>
         run (deliveries ds) s = Inr s \<and> fsmState (handleNetworking i s) = LEADER)"
proof (intro conjI)
  show "\<not> isTokenMsg d \<and> onRecv now d s = Inr s' \<longrightarrow> highestTokenSeen s' = highestTokenSeen s"
    using onRecv_nontoken_hts [of d now s s'] by blast
  show "isRawMsg d \<longrightarrow> \<not> isTokenMsg d"
    using isRawMsg_not_token by blast
  show "fsmState s = ELECT \<and> currentMode s = AUTO \<and> highestTokenSeen s \<le> myToken s \<and>
       (\<forall>(t, d) \<in> set ds. isRawMsg d) \<and>
       electionEnd s \<le> t_now i \<longrightarrow>
         run (deliveries ds) s = Inr s \<and> fsmState (handleNetworking i s) = LEADER"
  proof (intro impI; elim conjE)
    assume a: "fsmState s = ELECT" "currentMode s = AUTO" "highestTokenSeen s \<le> myToken s"
      "\<forall>(t, d) \<in> set ds. isRawMsg d" "electionEnd s \<le> t_now i"
    from a(1,4) have "run (deliveries ds) s = Inr s"
      by (rule raw_deliveries_ELECT)
    moreover have "fsmState (handleNetworking i s) = LEADER"
      using round_decision [OF a(1,2,5)] a(3) by simp
    ultimately show "run (deliveries ds) s = Inr s \<and> fsmState (handleNetworking i s) = LEADER"
      by simp
  qed
qed

theorem C9_chunks_not_recorded_witness:
  "fsmState (electing 1) = ELECT \<and> highestTokenSeen (electing 1) = 1 \<and>
   load32 (blackChunk 0) 5 = 9 \<and>
   run (deliveries [(1600, blackChunk 0), (1601, blackChunk 1)]) (electing 1)
     = Inr (electing 1) \<and>
   fsmState (handleNetworking (tickAt 1841 0) (electing 1)) = LEADER"
proof -
  have a: "fsmState (electing 1) = ELECT \<and> currentMode (electing 1) = AUTO \<and>
      highestTokenSeen (electing 1) = 1 \<and> myToken (electing 1) = 1 \<and>
      electionEnd (electing 1) \<le> t_now (tickAt 1841 0)"
    by code_simp
  have b: "isRawMsg (blackChunk k) \<and> load32 (blackChunk k) 5 = 9" for k
    by (simp add: blackChunk_def chunkMsg_decodes)
  have c: "onRecv 1600 (blackChunk 0) (electing 1) = Inr (electing 1)"
    using a b by (simp add: onRecv_raw_ELECT)
  from C9_chunks_not_recorded [of "blackChunk 0" 1600 "electing 1" "electing 1"
      "[(1600, blackChunk 0), (1601, blackChunk 1)]" "tickAt 1841 0"] a b c
  show ?thesis
    by simp
qed

section \<open>C10: who writes the protocol state\<close>

text \<open>
  C10 as stated fails: there is no mailbox. \<^verbatim>\<open>onRecv\<close>, the callback the radio stack calls,
  writes the protocol state itself. Handed a heartbeat of token 9, the freshly booted node
  has \<open>highestTokenSeen = 9\<close> and \<open>lastRecvMillis = 5\<close> when the callback returns; handed a
  chunk from a leader with token 9, the leader \<open>leading 1\<close> is a Follower when it returns.
\<close>

theorem C10_counterexample:
  "onRecv 5 (tokenMsg 9) (boot 1 0 0) =
     Inr ((boot 1 0 0)\<lparr>highestTokenSeen := 9, lastRecvMillis := 5\<rparr>) \<and>
   highestTokenSeen (boot 1 0 0) = 0 \<and> lastRecvMillis (boot 1 0 0) = 0 \<and>
   fsmState (leading 1) = LEADER \<and>
   onRecv 1850 (chunkMsg 0 9 0 []) (leading 1) =
     Inr ((leading 1)\<lparr>fsmState := FOLLOWER, lastRecvMillis := 1850\<rparr>)"
  by code_simp

text \<open>
  C10, amended. Every inbound datagram is handled in the receive callback, which writes the
  shared protocol state directly: a Heartbeat/Token datagram with a token above
  \<open>highestTokenSeen\<close> is recorded there at once, and one handled by a Follower in AUTO mode
  also refreshes \<open>lastRecvMillis\<close> and clears \<open>missedFrameCount\<close>; a Pixel-Chunk datagram
  with a higher sender token makes a Leader a Follower; a well-formed Pixel-Chunk datagram
  handled by a Follower in AUTO mode sets its bit of \<open>chunkMask\<close>. What the callback never
  writes is the mode, the node's token, the election-round timing (\<open>electionStart\<close>,
  \<open>electionEnd\<close>, \<open>myDelay\<close>, \<open>electionBroadcasted\<close>), \<open>lastHeartbeat\<close> and the sequence
  counter, and it sends and shows nothing: those belong to the control loop.
\<close>

theorem C10_callback_writes_state:
  "(isTokenMsg d \<and> highestTokenSeen s < load32 d 1 \<longrightarrow>
      (\<exists>s'. onRecv now d s = Inr s' \<and> highestTokenSeen s' = load32 d 1 \<and>
            (fsmState s = FOLLOWER \<and> currentMode s = AUTO \<longrightarrow>
               lastRecvMillis s' = now \<and> missedFrameCount s' = 0)))
   \<and> (isRawMsg d \<and> fsmState s = LEADER \<and> myToken s < load32 d 5 \<longrightarrow>
      (\<exists>s'. onRecv now d s = Inr s' \<and> fsmState s' = FOLLOWER))
   \<and> (wellFormedChunk d \<and> fsmState s = FOLLOWER \<and> currentMode s = AUTO \<longrightarrow>
      (\<exists>s'. onRecv now d s = Inr s' \<and>
            chunkMask s' = chunkMask s OR push_bit (chunkIndex d) 1))
   \<and> (onRecv now d s = Inr s' \<longrightarrow>
      currentMode s' = currentMode s \<and> myToken s' = myToken s \<and>
      electionStart s' = electionStart s \<and> electionEnd s' = electionEnd s \<and>
      myDelay s' = myDelay s \<and> electionBroadcasted s' = electionBroadcasted s \<and>
      lastHeartbeat s' = lastHeartbeat s \<and> masterSeq s' = masterSeq s \<and>
      sent s' = sent s \<and> shown s' = shown s)"
proof (intro conjI)
  show "isTokenMsg d \<and> highestTokenSeen s < load32 d 1 \<longrightarrow>
      (\<exists>s'. onRecv now d s = Inr s' \<and> highestTokenSeen s' = load32 d 1 \<and>
            (fsmState s = FOLLOWER \<and> currentMode s = AUTO \<longrightarrow>
               lastRecvMillis s' = now \<and> missedFrameCount s' = 0))"
  proof (intro impI; elim conjE)
    assume a: "isTokenMsg d" "highestTokenSeen s < load32 d 1"
    then have "max (highestTokenSeen s) (load32 d 1) = load32 d 1"
      by simp
    with a(1) show "\<exists>s'. onRecv now d s = Inr s' \<and> highestTokenSeen s' = load32 d 1 \<and>
            (fsmState s = FOLLOWER \<and> currentMode s = AUTO \<longrightarrow>
               lastRecvMillis s' = now \<and> missedFrameCount s' = 0)"
      by (simp add: onRecv_token)
  qed
  show "isRawMsg d \<and> fsmState s = LEADER \<and> myToken s < load32 d 5 \<longrightarrow>
      (\<exists>s'. onRecv now d s = Inr s' \<and> fsmState s' = FOLLOWER)"
    by (simp add: onRecv_raw_LEADER_higher)
  show "wellFormedChunk d \<and> fsmState s = FOLLOWER \<and> currentMode s = AUTO \<longrightarrow>
      (\<exists>s'. onRecv now d s = Inr s' \<and>
            chunkMask s' = chunkMask s OR push_bit (chunkIndex d) 1)"
  proof (intro impI; elim conjE)
    assume "wellFormedChunk d" "fsmState s = FOLLOWER" "currentMode s = AUTO"
    from onRecv_chunk_FOLLOWER [OF this, of now]
    show "\<exists>s'. onRecv now d s = Inr s' \<and>
            chunkMask s' = chunkMask s OR push_bit (chunkIndex d) 1"
      by auto
  qed
  show "onRecv now d s = Inr s' \<longrightarrow>
      currentMode s' = currentMode s \<and> myToken s' = myToken s \<and>
      electionStart s' = electionStart s \<and> electionEnd s' = electionEnd s \<and>
      myDelay s' = myDelay s \<and> electionBroadcasted s' = electionBroadcasted s \<and>
      lastHeartbeat s' = lastHeartbeat s \<and> masterSeq s' = masterSeq s \<and>
      sent s' = sent s \<and> shown s' = shown s"
    using onRecv_frame [of now d s s'] by blast
qed

theorem C10_callback_writes_state_witness:
  "highestTokenSeen (boot 1 0 0) = 0 \<and>
   (\<exists>s'. onRecv 5 (tokenMsg 9) (boot 1 0 0) = Inr s' \<and> highestTokenSeen s' = 9 \<and>
         lastRecvMillis s' = 5 \<and> myToken s' = 1 \<and> sent s' = []) \<and>
   fsmState (leading 1) = LEADER \<and>
   (\<exists>s'. onRecv 1850 (chunkMsg 0 9 0 []) (leading 1) = Inr s' \<and> fsmState s' = FOLLOWER) \<and>
   chunkMask (boot 1 0 0) = 0 \<and>
   (\<exists>s'. onRecv 5 (blackChunk 2) (boot 1 0 0) = Inr s' \<and> chunkMask s' = 4)"
proof -
  have a: "isTokenMsg (tokenMsg 9) \<and> load32 (tokenMsg 9) 1 = 9"
    by (intro conjI tokenMsg_decodes)
  have b: "highestTokenSeen (boot 1 0 0) = 0 \<and> fsmState (boot 1 0 0) = FOLLOWER \<and>
      currentMode (boot 1 0 0) = AUTO \<and> myToken (boot 1 0 0) = 1 \<and> sent (boot 1 0 0) = [] \<and>
      chunkMask (boot 1 0 0) = 0"
    by (simp add: boot_def)
  from a b obtain s' where s': "onRecv 5 (tokenMsg 9) (boot 1 0 0) = Inr s'"
    "highestTokenSeen s' = 9" "lastRecvMillis s' = 5"
    using C10_callback_writes_state [of "tokenMsg 9" "boot 1 0 0" 5] by auto
  from C10_callback_writes_state [of "tokenMsg 9" "boot 1 0 0" 5 s'] s'(1) b
  have "myToken s' = 1 \<and> sent s' = []"
    by simp
  with s' have one: "\<exists>s'. onRecv 5 (tokenMsg 9) (boot 1 0 0) = Inr s' \<and> highestTokenSeen s' = 9 \<and>
         lastRecvMillis s' = 5 \<and> myToken s' = 1 \<and> sent s' = []"
    by blast
  have c: "fsmState (leading 1) = LEADER \<and> myToken (leading 1) = 1"
    by code_simp
  have d: "isRawMsg (chunkMsg 0 9 0 []) \<and> load32 (chunkMsg 0 9 0 []) 5 = 9"
    by (intro conjI chunkMsg_decodes)
  from C10_callback_writes_state [of "chunkMsg 0 9 0 []" "leading 1" 1850] c d
  have two: "\<exists>s'. onRecv 1850 (chunkMsg 0 9 0 []) (leading 1) = Inr s' \<and> fsmState s' = FOLLOWER"
    by simp
  have "wellFormedChunk (blackChunk 2)"
    by (rule blackChunk_wellFormed) simp
  moreover have "chunkIndex (blackChunk 2) = 2"
    by (simp add: blackChunk_def chunkMsg_decodes)
  ultimately have e: "wellFormedChunk (blackChunk 2) \<and> chunkIndex (blackChunk 2) = 2"
    by simp
  from C10_callback_writes_state [of "blackChunk 2" "boot 1 0 0" 5] b e
  have three: "\<exists>s'. onRecv 5 (blackChunk 2) (boot 1 0 0) = Inr s' \<and> chunkMask s' = 4"
    by simp
  from one two three b c show ?thesis
    by simp
qed


end
